theory Spec2Isabelle
  imports Complex_Main "HOL-Library.AList"
begin

section \<open>Data model\<close>

text \<open>
  Node identifiers are the vertex indices of the mesh (non-negative integers).
  A scalar map value is a float; the model keeps the one distinction the algorithms
  depend on, a number versus not-a-number, and takes numbers as reals (rounding and
  infinities are left out).
\<close>

type_synonym node_id = nat

datatype pyfloat = Num real | NaN

datatype error = KeyError | ValueError | NameError | IndexError | TypeError

text \<open>
  A Python \<^verbatim>\<open>dict\<close> keeps its keys in insertion order and assigning to an existing key
  keeps the key's position: an association list with distinct keys, written to with
  \<^const>\<open>AList.update\<close>.
\<close>

type_synonym ('k, 'v) dict = "('k \<times> 'v) list"

definition dict_setitem :: "'k \<Rightarrow> 'v \<Rightarrow> ('k, 'v) dict \<Rightarrow> ('k, 'v) dict" where
  \<comment> \<open>\<^verbatim>\<open>d[k] = v\<close>\<close>
  "dict_setitem k v d = AList.update k v d"

definition dict_update :: "('k, 'v) dict \<Rightarrow> ('k, 'v) dict \<Rightarrow> ('k, 'v) dict" where
  \<comment> \<open>\<^verbatim>\<open>d.update(other)\<close>\<close>
  "dict_update d other = fold (\<lambda>(k, v). dict_setitem k v) other d"

definition dict_zip :: "'k list \<Rightarrow> 'v list \<Rightarrow> ('k, 'v) dict" where
  \<comment> \<open>\<^verbatim>\<open>dict(zip(ks, vs))\<close>\<close>
  "dict_zip ks vs = fold (\<lambda>(k, v). dict_setitem k v) (zip ks vs) []"

text \<open>
  A \<^verbatim>\<open>networkx.Graph\<close> holds two dictionaries with the same keys in the same order,
  \<^verbatim>\<open>_node\<close> (node to attribute dictionary) and \<^verbatim>\<open>_adj\<close> (node to the dictionary of its
  neighbours). The model keeps them as one dictionary from a node to the pair of its
  \<^verbatim>\<open>"map_val"\<close> attribute (\<open>None\<close> while the attribute is not bound) and the keys of its
  neighbour dictionary in insertion order. Edges carry no data in this program.
\<close>

type_synonym nx_graph = "(node_id, pyfloat option \<times> node_id list) dict"

definition G_nodes :: "nx_graph \<Rightarrow> node_id list" where
  \<comment> \<open>iterating \<^verbatim>\<open>G.nodes\<close>\<close>
  "G_nodes G = map fst G"

definition G_adj :: "nx_graph \<Rightarrow> node_id \<Rightarrow> error + node_id list" where
  \<comment> \<open>\<^verbatim>\<open>G.adj[node]\<close>, the neighbours in iteration order\<close>
  "G_adj G n = (case map_of G n of None \<Rightarrow> Inl KeyError | Some (a, ns) \<Rightarrow> Inr ns)"

definition G_map_val :: "nx_graph \<Rightarrow> node_id \<Rightarrow> error + pyfloat" where
  \<comment> \<open>\<^verbatim>\<open>G.nodes[n]["map_val"]\<close>\<close>
  "G_map_val G n =
     (case map_of G n of
        None \<Rightarrow> Inl KeyError
      | Some (None, ns) \<Rightarrow> Inl KeyError
      | Some (Some v, ns) \<Rightarrow> Inr v)"

definition add_node :: "node_id \<Rightarrow> nx_graph \<Rightarrow> nx_graph" where
  \<comment> \<open>one step of \<^verbatim>\<open>add_nodes_from\<close>: a node already present is left as it is\<close>
  "add_node n G = (if n \<in> set (G_nodes G) then G else dict_setitem n (None, []) G)"

definition keys_add :: "node_id \<Rightarrow> node_id list \<Rightarrow> node_id list" where
  \<comment> \<open>the keys of an inner dictionary after \<^verbatim>\<open>d[v] = {}\<close>\<close>
  "keys_add v ns = (if v \<in> set ns then ns else ns @ [v])"

definition link :: "node_id \<Rightarrow> node_id \<Rightarrow> nx_graph \<Rightarrow> nx_graph" where
  \<comment> \<open>\<^verbatim>\<open>self._adj[u][v] = datadict\<close>\<close>
  "link u v G =
     (case map_of G u of
        None \<Rightarrow> G
      | Some (a, ns) \<Rightarrow> dict_setitem u (a, keys_add v ns) G)"

definition add_edge :: "node_id \<times> node_id \<Rightarrow> nx_graph \<Rightarrow> nx_graph" where
  \<comment> \<open>one step of \<^verbatim>\<open>add_edges_from\<close>: both ends are added as nodes when new, then each
      is entered in the other's neighbour dictionary\<close>
  "add_edge e G = (case e of (u, v) \<Rightarrow> link v u (link u v (add_node v (add_node u G))))"

section \<open>Graph Builder\<close>

fun combinations2 :: "'a list \<Rightarrow> ('a \<times> 'a) list" where
  \<comment> \<open>\<^verbatim>\<open>itertools.combinations(row, 2)\<close>\<close>
  "combinations2 [] = []"
| "combinations2 (x # xs) = map (Pair x) xs @ combinations2 xs"

definition np_unique :: "node_id list list \<Rightarrow> node_id list" where
  \<comment> \<open>\<^verbatim>\<open>np.unique(mesh_faces)\<close>: the sorted distinct entries of the table\<close>
  "np_unique mesh_faces = sort (remdups (concat mesh_faces))"

definition load_surface_info :: "node_id list list \<Rightarrow> node_id list list \<times> node_id list" where
  \<comment> \<open>the argument is the face table that \<^verbatim>\<open>read_geometry\<close> reads from the file\<close>
  "load_surface_info file_faces = (file_faces, np_unique file_faces)"

definition nifti_to_graph ::
  "node_id list list \<Rightarrow> node_id list list option \<Rightarrow> node_id list option \<Rightarrow> nx_graph" where
  "nifti_to_graph file_faces mesh_faces nodes_to_add =
     (let (faces, nodes) =
            (case (mesh_faces, nodes_to_add) of
               (Some f, Some n) \<Rightarrow> (f, n)
             | _ \<Rightarrow> load_surface_info file_faces);
          G = fold add_node nodes []
      in fold (\<lambda>row G. fold add_edge (combinations2 row) G) faces G)"

section \<open>Neighbourhood Engine\<close>

datatype seeds = SeedInt node_id | SeedNodes "node_id list"

fun seeds_list :: "seeds \<Rightarrow> node_id list" where
  \<comment> \<open>\<^verbatim>\<open>if isinstance(nodes, int): nodes = [nodes]\<close>\<close>
  "seeds_list (SeedInt n) = [n]"
| "seeds_list (SeedNodes ns) = ns"

fun neighbours_loop ::
  "nx_graph \<Rightarrow> node_id list \<Rightarrow> node_id list \<times> pyfloat list \<Rightarrow>
   error + (node_id list \<times> pyfloat list)" where
  \<comment> \<open>the inner loop over \<^verbatim>\<open>G.adj[node].items()\<close>; the state is
      \<^verbatim>\<open>(node_neighbours, vals)\<close>\<close>
  "neighbours_loop G [] acc = Inr acc"
| "neighbours_loop G (nb # nbs) acc =
     (case G_map_val G nb of
        Inl e \<Rightarrow> Inl e
      | Inr v \<Rightarrow> neighbours_loop G nbs (fst acc @ [nb], snd acc @ [v]))"

fun nodes_loop ::
  "nx_graph \<Rightarrow> node_id list \<Rightarrow> node_id list \<times> pyfloat list \<Rightarrow>
   error + (node_id list \<times> pyfloat list)" where
  \<comment> \<open>the outer loop \<^verbatim>\<open>for node in nodes\<close>\<close>
  "nodes_loop G [] acc = Inr acc"
| "nodes_loop G (n # ns) acc =
     (case G_adj G n of
        Inl e \<Rightarrow> Inl e
      | Inr nbs \<Rightarrow>
          (case neighbours_loop G nbs acc of
             Inl e \<Rightarrow> Inl e
           | Inr acc' \<Rightarrow> nodes_loop G ns acc'))"

definition get_neighbours_and_vals :: "nx_graph \<Rightarrow> seeds \<Rightarrow> error + (node_id, pyfloat) dict" where
  "get_neighbours_and_vals G nodes =
     (case nodes_loop G (seeds_list nodes) ([], []) of
        Inl e \<Rightarrow> Inl e
      | Inr (node_neighbours, vals) \<Rightarrow> Inr (dict_zip node_neighbours vals))"

fun multi_loop ::
  "nx_graph \<Rightarrow> seeds \<Rightarrow> nat \<Rightarrow> (node_id, pyfloat) dict \<Rightarrow> error + (node_id, pyfloat) dict" where
  \<comment> \<open>\<^verbatim>\<open>for i in range(neighbourhood_size)\<close>, with the iterations left to run\<close>
  "multi_loop G nodes 0 neighbourhood = Inr neighbourhood"
| "multi_loop G nodes (Suc i) neighbourhood =
     (case get_neighbours_and_vals G nodes of
        Inl e \<Rightarrow> Inl e
      | Inr neighbours \<Rightarrow> multi_loop G nodes i (dict_update neighbourhood neighbours))"

definition get_multi_neighbours_and_vals ::
  "nx_graph \<Rightarrow> seeds \<Rightarrow> int \<Rightarrow> error + (node_id, pyfloat) dict" where
  "get_multi_neighbours_and_vals G nodes neighbourhood_size =
     multi_loop G nodes (nat neighbourhood_size) []"

definition set_attr :: "node_id \<times> pyfloat \<Rightarrow> nx_graph \<Rightarrow> nx_graph" where
  \<comment> \<open>one step of \<^verbatim>\<open>nx.set_node_attributes\<close> on an item \<^verbatim>\<open>n: {"map_val": v}\<close>:
      \<^verbatim>\<open>G.nodes[n].update(d)\<close>, and a node that is not in the graph is skipped\<close>
  "set_attr p G =
     (case p of (n, v) \<Rightarrow>
        (case map_of G n of
           None \<Rightarrow> G
         | Some (a, ns) \<Rightarrow> dict_setitem n (Some v, ns) G))"

definition set_node_attributes :: "nx_graph \<Rightarrow> (node_id, pyfloat) dict \<Rightarrow> nx_graph" where
  \<comment> \<open>\<^verbatim>\<open>nx.set_node_attributes(G, values)\<close>, over the items of \<^verbatim>\<open>values\<close> in order\<close>
  "set_node_attributes G vals = fold set_attr vals G"

fun attributes_loop :: "nx_graph \<Rightarrow> node_id list \<Rightarrow> pyfloat list \<Rightarrow> error + pyfloat list" where
  "attributes_loop G [] tmp = Inr tmp"
| "attributes_loop G (i # rest) tmp =
     (case G_map_val G i of
        Inl e \<Rightarrow> Inl e
      | Inr v \<Rightarrow> attributes_loop G rest (tmp @ [v]))"

definition get_node_attributes_as_list :: "nx_graph \<Rightarrow> node_id list \<Rightarrow> error + pyfloat list" where
  \<comment> \<open>with \<^verbatim>\<open>key="map_val"\<close>; an empty list (like \<^verbatim>\<open>None\<close>) stands for all nodes\<close>
  "get_node_attributes_as_list G nodes =
     attributes_loop G (if nodes = [] then G_nodes G else nodes) []"

section \<open>Region Operations\<close>

text \<open>
  \<^verbatim>\<open>is_node_on_region_border\<close> reads the name \<^verbatim>\<open>label_coords\<close>, which the module does
  not define: the model takes the module's global of that name as a parameter, \<open>None\<close>
  when the name is not bound.
\<close>

definition is_node_on_region_border ::
  "node_id list option \<Rightarrow> nx_graph \<Rightarrow> node_id list \<Rightarrow> node_id \<Rightarrow> error + bool" where
  "is_node_on_region_border label_coords G region_nodes node =
     (case get_neighbours_and_vals G (SeedNodes [node]) of
        Inl e \<Rightarrow> Inl e
      | Inr neighbours \<Rightarrow>
          (let total_neighbours = card (set (map fst neighbours))
           in case label_coords of
                None \<Rightarrow> Inl NameError
              | Some coords \<Rightarrow>
                  (let n_nodes_in_region = card (set (map fst neighbours) \<inter> set coords)
                   in Inr (n_nodes_in_region < total_neighbours))))"

fun border_loop ::
  "node_id list option \<Rightarrow> nx_graph \<Rightarrow> node_id list \<Rightarrow> node_id list \<Rightarrow> node_id list \<Rightarrow>
   error + node_id list" where
  "border_loop label_coords G nodes [] border_nodes = Inr border_nodes"
| "border_loop label_coords G nodes (node # rest) border_nodes =
     (case is_node_on_region_border label_coords G nodes node of
        Inl e \<Rightarrow> Inl e
      | Inr b \<Rightarrow>
          border_loop label_coords G nodes rest
            (if b then border_nodes @ [node] else border_nodes))"

definition find_region_border ::
  "node_id list option \<Rightarrow> nx_graph \<Rightarrow> node_id list \<Rightarrow> error + node_id list" where
  "find_region_border label_coords G nodes = border_loop label_coords G nodes nodes []"

definition remove_out_of_region_nodes :: "nx_graph \<Rightarrow> node_id list \<Rightarrow> node_id list \<Rightarrow> node_id set" where
  \<comment> \<open>the list of a set has no order that the model fixes: the result is the set\<close>
  "remove_out_of_region_nodes G region_nodes nodes = set region_nodes \<inter> set nodes"

text \<open>
  Objects that a caller shares with a function live in a store: list objects and graph
  objects, each under its address. A function that writes to an object returns the
  store it leaves, also when it raises.
\<close>

type_synonym addr = nat

record heap =
  lists :: "addr \<Rightarrow> node_id list"
  graphs :: "addr \<Rightarrow> nx_graph"
  next_free :: addr

fun isnan :: "pyfloat \<Rightarrow> bool" where
  "isnan NaN = True"
| "isnan (Num x) = False"

fun expand_loop :: "addr \<Rightarrow> addr \<Rightarrow> bool \<Rightarrow> nat \<Rightarrow> heap \<Rightarrow> error option \<times> heap" where
  \<comment> \<open>\<^verbatim>\<open>for i in range(stepsize)\<close>; \<^verbatim>\<open>nodes += neighbours\<close> extends the list object in
      place\<close>
  "expand_loop G nodes ignore_nans 0 h = (None, h)"
| "expand_loop G nodes ignore_nans (Suc i) h =
     (case get_neighbours_and_vals (graphs h G) (SeedNodes (lists h nodes)) of
        Inl e \<Rightarrow> (Some e, h)
      | Inr neighbours \<Rightarrow>
          (let keys = (if ignore_nans then map fst (filter (\<lambda>(k, v). \<not> isnan v) neighbours)
                       else map fst neighbours)
           in expand_loop G nodes ignore_nans i
                (h\<lparr>lists := (lists h)(nodes := lists h nodes @ keys)\<rparr>)))"

definition expand_nodes ::
  "heap \<Rightarrow> addr \<Rightarrow> addr \<Rightarrow> int \<Rightarrow> bool \<Rightarrow> (error + (addr \<times> node_id set)) \<times> heap" where
  \<comment> \<open>\<^verbatim>\<open>orig_nodes = nodes[:]\<close> is a new list with the contents at entry, never written;
      the first component returned is the list object that was passed in\<close>
  "expand_nodes h G nodes stepsize ignore_nans =
     (let orig_nodes = lists h nodes
      in case expand_loop G nodes ignore_nans (nat stepsize) h of
           (Some e, h') \<Rightarrow> (Inl e, h')
         | (None, h') \<Rightarrow> (Inr (nodes, set (lists h' nodes) - set orig_nodes), h'))"

section \<open>Gradient Ascent\<close>

fun py_gt :: "pyfloat option \<Rightarrow> pyfloat option \<Rightarrow> error + bool" where
  \<comment> \<open>\<^verbatim>\<open>a > b\<close> on values that are floats or \<^verbatim>\<open>None\<close>: false when either float is
      not-a-number\<close>
  "py_gt (Some (Num a)) (Some (Num b)) = Inr (b < a)"
| "py_gt (Some a) (Some b) = Inr False"
| "py_gt a b = Inl TypeError"

fun float_lt :: "pyfloat \<Rightarrow> pyfloat \<Rightarrow> bool" where
  "float_lt (Num a) (Num b) = (a < b)"
| "float_lt a b = False"

fun max_loop :: "('a \<Rightarrow> pyfloat option) \<Rightarrow> 'a \<Rightarrow> 'a list \<Rightarrow> error + 'a" where
  \<comment> \<open>the scan of \<^verbatim>\<open>max\<close>: the running maximum is replaced by an item that compares
      greater\<close>
  "max_loop key m [] = Inr m"
| "max_loop key m (x # xs) =
     (case py_gt (key x) (key m) of
        Inl e \<Rightarrow> Inl e
      | Inr b \<Rightarrow> max_loop key (if b then x else m) xs)"

definition py_max :: "('a \<Rightarrow> pyfloat option) \<Rightarrow> 'a list \<Rightarrow> error + 'a" where
  \<comment> \<open>\<^verbatim>\<open>max(xs, key=key)\<close>\<close>
  "py_max key xs = (case xs of [] \<Rightarrow> Inl ValueError | x # rest \<Rightarrow> max_loop key x rest)"

definition max_neighbour :: "nx_graph \<Rightarrow> node_id \<Rightarrow> int \<Rightarrow> error + (node_id \<times> pyfloat)" where
  "max_neighbour G node neighbourhood_size =
     (case get_multi_neighbours_and_vals G (SeedNodes [node]) neighbourhood_size of
        Inl e \<Rightarrow> Inl e
      | Inr neighbours \<Rightarrow>
          (case py_max (map_of neighbours) (map fst neighbours) of
             Inl e \<Rightarrow> Inl e
           | Inr k \<Rightarrow>
               (case py_max Some (map snd neighbours) of
                  Inl e \<Rightarrow> Inl e
                | Inr v \<Rightarrow> Inr (k, v))))"

fun step_loop ::
  "nx_graph \<Rightarrow> int \<Rightarrow> (node_id \<times> pyfloat) list \<Rightarrow> node_id list \<Rightarrow> error + node_id list" where
  "step_loop G stepsize [] new_positions = Inr new_positions"
| "step_loop G stepsize ((node, retval) # rest) new_positions =
     (case max_neighbour G node stepsize of
        Inl e \<Rightarrow> Inl e
      | Inr max_info \<Rightarrow>
          step_loop G stepsize rest
            (new_positions @ [if float_lt retval (snd max_info) then fst max_info else node]))"

definition nodes_gradient_step :: "nx_graph \<Rightarrow> node_id list \<Rightarrow> int \<Rightarrow> error + node_id list" where
  "nodes_gradient_step G nodes stepsize =
     (case get_node_attributes_as_list G nodes of
        Inl e \<Rightarrow> Inl e
      | Inr map_values \<Rightarrow> step_loop G stepsize (zip nodes map_values) [])"

section \<open>Smoothing Engine\<close>

fun present_vals :: "pyfloat list \<Rightarrow> real list" where
  "present_vals [] = []"
| "present_vals (Num x # vs) = x # present_vals vs"
| "present_vals (NaN # vs) = present_vals vs"

definition nanmean :: "pyfloat list \<Rightarrow> pyfloat" where
  \<comment> \<open>\<^verbatim>\<open>np.nanmean\<close>: the mean of the entries that are numbers, not-a-number (with a
      warning, no exception) when there is none\<close>
  "nanmean vs =
     (let xs = present_vals vs
      in if xs = [] then NaN else Num (sum_list xs / real (length xs)))"

definition add_node_attr :: "node_id \<times> pyfloat option \<Rightarrow> nx_graph \<Rightarrow> nx_graph" where
  \<comment> \<open>one step of \<^verbatim>\<open>add_nodes_from\<close> on a pair of a node and its attribute dictionary\<close>
  "add_node_attr p G =
     (case p of (n, d) \<Rightarrow>
        (case map_of G n of
           None \<Rightarrow> dict_setitem n (d, []) G
         | Some (a, ns) \<Rightarrow> dict_setitem n (case d of None \<Rightarrow> a | Some v \<Rightarrow> Some v, ns) G))"

definition nx_copy :: "nx_graph \<Rightarrow> nx_graph" where
  \<comment> \<open>\<^verbatim>\<open>G.copy()\<close>: a new graph that is given the nodes with copies of their attribute
      dictionaries, then every edge as it comes up in the adjacency of the original\<close>
  "nx_copy G =
     fold add_edge (concat (map (\<lambda>(u, a, ns). map (Pair u) ns) G))
       (fold add_node_attr (map (\<lambda>(n, a, ns). (n, a)) G) [])"

definition G_copy :: "heap \<Rightarrow> addr \<Rightarrow> addr \<times> heap" where
  "G_copy h G =
     (next_free h,
      h\<lparr>graphs := (graphs h)(next_free h := nx_copy (graphs h G)),
        next_free := Suc (next_free h)\<rparr>)"

datatype nodes_arg =
  PyNone | PyList "node_id list" | PyTuple "node_id list" | PySet "node_id set"
  | NdArray "node_id list"

fun kernel_loop ::
  "nx_graph \<Rightarrow> int \<Rightarrow> node_id list \<Rightarrow> (node_id, pyfloat) dict \<Rightarrow> error + (node_id, pyfloat) dict" where
  \<comment> \<open>\<^verbatim>\<open>for node in nodes\<close> of one pass: reads the graph, writes \<^verbatim>\<open>color_map_dict\<close>\<close>
  "kernel_loop G_smooth kernel_size [] color_map_dict = Inr color_map_dict"
| "kernel_loop G_smooth kernel_size (node # rest) color_map_dict =
     (case get_multi_neighbours_and_vals G_smooth (SeedNodes [node]) kernel_size of
        Inl e \<Rightarrow> Inl e
      | Inr out \<Rightarrow>
          kernel_loop G_smooth kernel_size rest
            (dict_setitem node (nanmean (map snd out)) color_map_dict))"

fun its_loop :: "addr \<Rightarrow> node_id list \<Rightarrow> int \<Rightarrow> nat \<Rightarrow> heap \<Rightarrow> error option \<times> heap" where
  \<comment> \<open>\<^verbatim>\<open>for it in range(n_its)\<close>; the progress line that is printed is left out\<close>
  "its_loop G_smooth nodes kernel_size 0 h = (None, h)"
| "its_loop G_smooth nodes kernel_size (Suc i) h =
     (case kernel_loop (graphs h G_smooth) kernel_size nodes [] of
        Inl e \<Rightarrow> (Some e, h)
      | Inr color_map_dict \<Rightarrow>
          its_loop G_smooth nodes kernel_size i
            (h\<lparr>graphs := (graphs h)
                  (G_smooth := set_node_attributes (graphs h G_smooth) color_map_dict)\<rparr>))"

definition smooth_graph ::
  "heap \<Rightarrow> addr \<Rightarrow> nodes_arg \<Rightarrow> int \<Rightarrow> int \<Rightarrow> (error + addr) \<times> heap" where
  "smooth_graph h G nodes n_its kernel_size =
     (let nodes' = (case nodes of PyList ns \<Rightarrow> ns | _ \<Rightarrow> G_nodes (graphs h G));
          (G_smooth, h1) = G_copy h G
      in case its_loop G_smooth nodes' kernel_size (nat n_its) h1 of
           (Some e, h2) \<Rightarrow> (Inl e, h2)
         | (None, h2) \<Rightarrow> (Inr G_smooth, h2))"

section \<open>Attribute Binder\<close>

definition np_take :: "pyfloat list \<Rightarrow> node_id list \<Rightarrow> error + pyfloat list" where
  \<comment> \<open>\<^verbatim>\<open>map_data[nodes_to_map]\<close>: indexing an array by an array of indices\<close>
  "np_take map_data idx =
     (if list_all (\<lambda>i. i < length map_data) idx then Inr (map (nth map_data) idx)
      else Inl IndexError)"

definition add_map_to_surface ::
  "heap \<Rightarrow> addr \<Rightarrow> node_id list \<Rightarrow> pyfloat list \<Rightarrow> (error + addr) \<times> heap" where
  \<comment> \<open>\<open>map_data\<close> is the array that \<^verbatim>\<open>load_map_data\<close> reads from the file; the graph
      object is written in place and returned\<close>
  "add_map_to_surface h G nodes_to_map map_data =
     (case np_take map_data nodes_to_map of
        Inl e \<Rightarrow> (Inl e, h)
      | Inr color_map \<Rightarrow>
          (let color_map_dict = dict_zip (G_nodes (graphs h G)) color_map
           in (Inr G,
               h\<lparr>graphs := (graphs h)
                     (G := set_node_attributes (graphs h G) color_map_dict)\<rparr>)))"

section \<open>Notions of the statements\<close>

text \<open>
  Edges and well-formed graphs, the scan that \<^verbatim>\<open>max\<close> performs, and a smoothing pass
  written as one simultaneous update.
\<close>

definition has_edge :: "nx_graph \<Rightarrow> node_id \<Rightarrow> node_id \<Rightarrow> bool" where
  \<comment> \<open>\<^verbatim>\<open>G.has_edge(u, v)\<close>: \<open>v\<close> is a key of \<^verbatim>\<open>G._adj[u]\<close>\<close>
  "has_edge G u v = (case map_of G u of None \<Rightarrow> False | Some (a, ns) \<Rightarrow> v \<in> set ns)"

definition nx_wf :: "nx_graph \<Rightarrow> bool" where
  \<comment> \<open>what every graph object satisfies: each node is one key, each neighbour is
      entered once, and adjacency is symmetric\<close>
  "nx_wf G \<longleftrightarrow>
     distinct (G_nodes G) \<and>
     list_all (\<lambda>(n, a, ns). distinct ns \<and> list_all (\<lambda>m. has_edge G m n) ns) G"

definition adj_distinct :: "nx_graph \<Rightarrow> bool" where
  \<comment> \<open>no neighbour dictionary holds a key twice\<close>
  "adj_distinct G \<longleftrightarrow> (\<forall>n a ns. map_of G n = Some (a, ns) \<longrightarrow> distinct ns)"

definition face_graph :: "node_id list list \<Rightarrow> nx_graph" where
  \<comment> \<open>the graph of a face table, with the edge loops of \<open>nifti_to_graph\<close> joined into
      one\<close>
  "face_graph faces = fold add_edge (concat (map combinations2 faces)) (fold add_node (np_unique faces) [])"

definition bare :: "nx_graph \<Rightarrow> nx_graph" where
  \<comment> \<open>the nodes and attributes of a graph, without its edges\<close>
  "bare G = map (\<lambda>(n, a, ns). (n, a, [])) G"

definition arcs :: "nx_graph \<Rightarrow> (node_id \<times> node_id) list" where
  \<comment> \<open>every pair of a node and one of its neighbours, as the adjacency is iterated\<close>
  "arcs G = concat (map (\<lambda>(u, a, ns). map (Pair u) ns) G)"

definition reach :: "nx_graph \<Rightarrow> node_id list \<Rightarrow> (node_id \<times> pyfloat) set" where
  \<comment> \<open>the neighbours of the given nodes, each with its value in the graph\<close>
  "reach G ns = {(m, v). \<exists>s\<in>set ns. has_edge G s m \<and> G_map_val G m = Inr v}"

fun scan_max :: "('a \<times> pyfloat) \<Rightarrow> ('a \<times> pyfloat) list \<Rightarrow> 'a \<times> pyfloat" where
  \<comment> \<open>the scan of \<^verbatim>\<open>max\<close> over the items of a dictionary, compared by value\<close>
  "scan_max m [] = m"
| "scan_max m (x # xs) = scan_max (if float_lt (snd m) (snd x) then x else m) xs"

definition neighbourhood_mean :: "nx_graph \<Rightarrow> int \<Rightarrow> node_id \<Rightarrow> pyfloat" where
  \<comment> \<open>the mean of the values in the neighbourhood of a node, taken in the graph \<open>S\<close>
      (not-a-number where the neighbourhood query itself raises)\<close>
  "neighbourhood_mean S kernel_size n =
     (case get_multi_neighbours_and_vals S (SeedNodes [n]) kernel_size of
        Inl e \<Rightarrow> NaN
      | Inr out \<Rightarrow> nanmean (map snd out))"

definition batch_pass :: "nx_graph \<Rightarrow> node_id list \<Rightarrow> int \<Rightarrow> nx_graph" where
  \<comment> \<open>one smoothing pass as the specification words it: every target node gets the mean
      of its neighbourhood in the graph as the previous pass left it, all at once; the
      other nodes, the node order and the adjacency stay\<close>
  "batch_pass S targets kernel_size =
     map (\<lambda>(n, a, ns).
            (n, if n \<in> set targets then Some (neighbourhood_mean S kernel_size n) else a, ns)) S"

fun targets_of :: "heap \<Rightarrow> addr \<Rightarrow> nodes_arg \<Rightarrow> node_id list" where
  \<comment> \<open>the nodes that a call of \<open>smooth_graph\<close> smooths: the list that was passed, and
      all nodes of the graph for an argument that is no list\<close>
  "targets_of h g (PyList ns) = ns"
| "targets_of h g nodes = G_nodes (graphs h g)"

section \<open>Example data\<close>

definition example_faces :: "node_id list list" where
  "example_faces = [[0, 1, 2], [1, 2, 3]]"

definition example_graph :: nx_graph where
  \<comment> \<open>the graph of \<open>example_faces\<close> with the values 1, 5, 3 and not-a-number bound\<close>
  "example_graph =
     [(0, Some (Num 1), [1, 2]), (1, Some (Num 5), [0, 2, 3]),
      (2, Some (Num 3), [0, 1, 3]), (3, Some NaN, [1, 2])]"

definition example_heap :: heap where
  "example_heap = \<lparr>lists = (\<lambda>a. [])(0 := [0]), graphs = (\<lambda>a. [])(1 := example_graph), next_free = 2\<rparr>"

definition nan_first_graph :: nx_graph where
  \<comment> \<open>the graph of the one face \<open>(0, 1, 2)\<close> with the values 1, not-a-number and 5\<close>
  "nan_first_graph =
     [(0, Some (Num 1), [1, 2]), (1, Some NaN, [0, 2]), (2, Some (Num 5), [0, 1])]"

definition isolated_graph :: nx_graph where
  \<comment> \<open>one node with a value and no edge\<close>
  "isolated_graph = [(0, Some (Num 1), [])]"

definition nan_neighbour_graph :: nx_graph where
  \<comment> \<open>two joined nodes: node 0 has the value 1, its only neighbour has not-a-number\<close>
  "nan_neighbour_graph = [(0, Some (Num 1), [1]), (1, Some NaN, [0])]"

definition nan_neighbour_heap :: heap where
  "nan_neighbour_heap =
     \<lparr>lists = (\<lambda>a. []), graphs = (\<lambda>a. [])(1 := nan_neighbour_graph), next_free = 2\<rparr>"

section \<open>Dictionaries\<close>

lemma dict_setitem_new: "k \<notin> fst ` set d \<Longrightarrow> dict_setitem k v d = d @ [(k, v)]"
  unfolding dict_setitem_def by (induction d) auto

lemma distinct_dict_setitem:
  "distinct (map fst d) \<Longrightarrow> distinct (map fst (dict_setitem k v d))"
  unfolding dict_setitem_def by (rule distinct_update)

lemma distinct_fold_setitem:
  "distinct (map fst d) \<Longrightarrow> distinct (map fst (fold (\<lambda>(k, v). dict_setitem k v) ps d))"
  by (induction ps arbitrary: d) (auto simp: distinct_dict_setitem)

lemma distinct_dict_zip: "distinct (map fst (dict_zip ks vs))"
  unfolding dict_zip_def by (rule distinct_fold_setitem) simp

lemma fold_setitem_present:
  "distinct (map fst d) \<Longrightarrow> set ps \<subseteq> set d \<Longrightarrow> fold (\<lambda>(k, v). dict_setitem k v) ps d = d"
proof (induction ps)
  case Nil
  then show ?case by simp
next
  case (Cons p ps)
  obtain k v where p: "p = (k, v)" by (cases p)
  from Cons.prems p have "map_of d k = Some v" by simp
  then have "dict_setitem k v d = d"
    unfolding dict_setitem_def by (rule update_triv)
  with Cons p show ?case by simp
qed

lemma fold_setitem_fresh:
  "distinct (map fst (d @ ps)) \<Longrightarrow> fold (\<lambda>(k, v). dict_setitem k v) ps d = d @ ps"
proof (induction ps arbitrary: d)
  case Nil
  then show ?case by simp
next
  case (Cons p ps)
  obtain k v where p: "p = (k, v)" by (cases p)
  from Cons.prems p have "k \<notin> fst ` set d" by auto
  then have step: "dict_setitem k v d = d @ [(k, v)]" by (rule dict_setitem_new)
  from Cons.prems p have "distinct (map fst ((d @ [(k, v)]) @ ps))" by simp
  then have "fold (\<lambda>(k, v). dict_setitem k v) ps (d @ [(k, v)]) = (d @ [(k, v)]) @ ps"
    by (rule Cons.IH)
  with step p show ?case by simp
qed

lemma dict_update_empty: "distinct (map fst d) \<Longrightarrow> dict_update [] d = d"
  unfolding dict_update_def using fold_setitem_fresh [of "[]" d] by simp

lemma dict_update_self: "distinct (map fst d) \<Longrightarrow> dict_update d d = d"
  unfolding dict_update_def by (rule fold_setitem_present) simp_all

lemma get_neighbours_and_vals_distinct:
  "get_neighbours_and_vals G nodes = Inr d \<Longrightarrow> distinct (map fst d)"
  unfolding get_neighbours_and_vals_def
  by (auto simp: distinct_dict_zip split: sum.splits)

section \<open>Multi-hop neighbourhoods\<close>

lemma multi_loop_fixed:
  "get_neighbours_and_vals G nodes = Inr d \<Longrightarrow> multi_loop G nodes i d = Inr d"
  by (induction i) (auto simp: dict_update_self dest: get_neighbours_and_vals_distinct)

lemma multi_loop_Suc:
  "multi_loop G nodes (Suc i) [] = get_neighbours_and_vals G nodes"
proof (cases "get_neighbours_and_vals G nodes")
  case (Inl e)
  then show ?thesis by simp
next
  case (Inr d)
  then have "distinct (map fst d)" by (rule get_neighbours_and_vals_distinct)
  then have "dict_update [] d = d" by (rule dict_update_empty)
  with Inr show ?thesis by (simp add: multi_loop_fixed)
qed

text \<open>
  C1. For every graph, seed set and hop count \<open>k \<ge> 1\<close>, the multi-hop neighbourhood
  is the 1-hop neighbourhood of the same seeds, the same dictionary entry by entry and
  in the same order, and it fails exactly when the 1-hop query fails: every one of the
  \<open>k\<close> iterations expands the original seeds and merges into the one accumulator.
\<close>

theorem multi_hop_is_one_hop:
  "1 \<le> k \<Longrightarrow> get_multi_neighbours_and_vals G nodes k = get_neighbours_and_vals G nodes"
proof -
  assume "1 \<le> k"
  then obtain i where "nat k = Suc i" by (cases "nat k") auto
  then show ?thesis
    unfolding get_multi_neighbours_and_vals_def by (simp only: multi_loop_Suc)
qed

theorem multi_hop_is_one_hop_witness:
  "(1::int) \<le> 2 \<and>
   get_multi_neighbours_and_vals example_graph (SeedNodes [0]) 2 = Inr [(1, Num 5), (2, Num 3)]"
  using multi_hop_is_one_hop [of 2 example_graph "SeedNodes [0]"]
  by (simp add: get_neighbours_and_vals_def G_adj_def G_map_val_def dict_zip_def
      dict_setitem_def example_graph_def)

section \<open>Expansion by zero steps\<close>

text \<open>
  C9. With stepsize 0 the loop of \<^verbatim>\<open>expand_nodes\<close> does not run: the call returns the
  list object it was given, with the contents it had (the store is the one at entry),
  and an empty set of new nodes, whatever the graph, the list and the flag.
\<close>

theorem expand_nodes_stepsize_zero:
  "expand_nodes h G nodes 0 ignore_nans = (Inr (nodes, {}), h)"
  by (simp add: expand_nodes_def)

section \<open>Border detection\<close>

lemma example_neighbours_0:
  "get_neighbours_and_vals example_graph (SeedNodes [0]) = Inr [(1, Num 5), (2, Num 3)]"
  by (simp add: get_neighbours_and_vals_def G_adj_def G_map_val_def dict_zip_def
      dict_setitem_def example_graph_def)

lemma is_border_region_unused:
  "is_node_on_region_border label_coords G region_nodes node =
   is_node_on_region_border label_coords G region_nodes' node"
  by (simp add: is_node_on_region_border_def)

text \<open>
  C2. The border test does not look at its region parameter: it intersects the
  neighbours with the module global \<^verbatim>\<open>label_coords\<close>. In the example graph node 0 has
  the neighbours 1 and 2, both outside the region \<open>[0]\<close>, so node 0 is on the border of
  that region. With the global unbound the test and the border search raise
  \<^verbatim>\<open>NameError\<close>; with the global bound to \<open>[0, 1, 2]\<close> the test answers false and the
  border search returns no node.
\<close>

theorem is_border_reads_label_coords:
  "has_edge example_graph 0 1 \<and> 1 \<notin> set [0::nat] \<and>
   is_node_on_region_border None example_graph [0] 0 = Inl NameError \<and>
   is_node_on_region_border (Some [0, 1, 2]) example_graph [0] 0 = Inr False \<and>
   find_region_border None example_graph [0] = Inl NameError \<and>
   find_region_border (Some [0, 1, 2]) example_graph [0] = Inr []"
proof -
  have "has_edge example_graph 0 1" by (simp add: has_edge_def example_graph_def)
  then show ?thesis
    by (simp add: is_node_on_region_border_def find_region_border_def example_neighbours_0)
qed

section \<open>Errors of the neighbourhood query\<close>

lemma G_adj_Inl: "G_adj G n = Inl e \<longleftrightarrow> e = KeyError \<and> n \<notin> set (G_nodes G)"
  by (cases "map_of G n")
     (auto simp: G_adj_def G_nodes_def map_of_eq_None_iff [symmetric])

lemma G_map_val_Inl: "G_map_val G n = Inl e \<Longrightarrow> e = KeyError"
  by (auto simp: G_map_val_def split: option.splits)

lemma neighbours_loop_Inl: "neighbours_loop G nbs acc = Inl e \<Longrightarrow> e = KeyError"
  by (induction nbs arbitrary: acc) (auto split: sum.splits dest: G_map_val_Inl)

lemma neighbours_loop_Inr:
  "(\<exists>acc'. neighbours_loop G nbs acc = Inr acc') \<longleftrightarrow> (\<forall>nb\<in>set nbs. \<exists>v. G_map_val G nb = Inr v)"
  by (induction nbs arbitrary: acc) (auto split: sum.splits)

lemma nodes_loop_Inl: "nodes_loop G ns acc = Inl e \<Longrightarrow> e = KeyError"
  by (induction ns arbitrary: acc)
     (auto split: sum.splits simp: G_adj_Inl dest: neighbours_loop_Inl)

lemma nodes_loop_Inr:
  "(\<exists>acc'. nodes_loop G ns acc = Inr acc') \<longleftrightarrow>
   (\<forall>n\<in>set ns. \<exists>nbs. G_adj G n = Inr nbs \<and> (\<forall>nb\<in>set nbs. \<exists>v. G_map_val G nb = Inr v))"
proof (induction ns arbitrary: acc)
  case Nil
  then show ?case by simp
next
  case (Cons n ns)
  show ?case
  proof (cases "G_adj G n")
    case (Inl e)
    then show ?thesis by simp
  next
    case (Inr nbs)
    show ?thesis
    proof (cases "neighbours_loop G nbs acc")
      case (Inl e)
      with neighbours_loop_Inr [of G nbs acc]
      have "\<not> (\<forall>nb\<in>set nbs. \<exists>v. G_map_val G nb = Inr v)" by auto
      with Inl Inr show ?thesis by auto
    next
      case inner: (Inr acc')
      with neighbours_loop_Inr [of G nbs acc]
      have "\<forall>nb\<in>set nbs. \<exists>v. G_map_val G nb = Inr v" by auto
      with inner Inr Cons.IH [of acc'] show ?thesis by auto
    qed
  qed
qed

text \<open>
  C5. The neighbourhood query indexes \<^verbatim>\<open>G.adj\<close> with every seed and reads \<^verbatim>\<open>"map_val"\<close>
  of every neighbour, without a guard. It returns a mapping (possibly empty) when every
  seed is a node of the graph and every neighbour of a seed has a value bound; when
  some seed is not a node of the graph it raises \<^verbatim>\<open>KeyError\<close>.
\<close>

theorem get_neighbours_and_vals_errors:
  "((\<forall>n\<in>set (seeds_list nodes).
       \<exists>nbs. G_adj G n = Inr nbs \<and> (\<forall>nb\<in>set nbs. \<exists>v. G_map_val G nb = Inr v))
     \<longrightarrow> (\<exists>d. get_neighbours_and_vals G nodes = Inr d)) \<and>
   ((\<exists>n\<in>set (seeds_list nodes). n \<notin> set (G_nodes G))
     \<longrightarrow> get_neighbours_and_vals G nodes = Inl KeyError)"
proof (intro conjI impI)
  assume "\<forall>n\<in>set (seeds_list nodes).
       \<exists>nbs. G_adj G n = Inr nbs \<and> (\<forall>nb\<in>set nbs. \<exists>v. G_map_val G nb = Inr v)"
  then obtain acc where "nodes_loop G (seeds_list nodes) ([], []) = Inr acc"
    using nodes_loop_Inr [of G "seeds_list nodes" "([], [])"] by blast
  then show "\<exists>d. get_neighbours_and_vals G nodes = Inr d"
    by (cases acc) (simp add: get_neighbours_and_vals_def)
next
  assume "\<exists>n\<in>set (seeds_list nodes). n \<notin> set (G_nodes G)"
  then obtain n where n: "n \<in> set (seeds_list nodes)" "G_adj G n = Inl KeyError"
    by (auto simp: G_adj_Inl)
  then have "\<not> (\<exists>acc'. nodes_loop G (seeds_list nodes) ([], []) = Inr acc')"
    unfolding nodes_loop_Inr by force
  then obtain e where "nodes_loop G (seeds_list nodes) ([], []) = Inl e"
    by (cases "nodes_loop G (seeds_list nodes) ([], [])") auto
  then have "nodes_loop G (seeds_list nodes) ([], []) = Inl KeyError"
    using nodes_loop_Inl by blast
  then show "get_neighbours_and_vals G nodes = Inl KeyError"
    by (simp add: get_neighbours_and_vals_def)
qed

theorem get_neighbours_and_vals_errors_witness:
  "(\<exists>d. get_neighbours_and_vals example_graph (SeedNodes [0, 3]) = Inr d) \<and>
   get_neighbours_and_vals example_graph (SeedNodes [0, 7]) = Inl KeyError"
proof -
  have a: "\<forall>n\<in>set (seeds_list (SeedNodes [0, 3])).
       \<exists>nbs. G_adj example_graph n = Inr nbs \<and>
         (\<forall>nb\<in>set nbs. \<exists>v. G_map_val example_graph nb = Inr v)"
    by (simp add: G_adj_def G_map_val_def example_graph_def)
  have b: "\<exists>n\<in>set (seeds_list (SeedNodes [0, 7])). n \<notin> set (G_nodes example_graph)"
    by (simp add: G_nodes_def example_graph_def)
  from a b
    get_neighbours_and_vals_errors [of "SeedNodes [0, 3]" example_graph]
    get_neighbours_and_vals_errors [of "SeedNodes [0, 7]" example_graph]
  show ?thesis by blast
qed

text \<open>A seed that is not a node of the graph: the query raises.\<close>

theorem missing_seed_raises:
  "get_neighbours_and_vals example_graph (SeedNodes [7]) = Inl KeyError"
  by (simp add: get_neighbours_and_vals_def G_adj_def example_graph_def)

section \<open>The graph of a face table\<close>

lemma map_of_dict_setitem: "map_of (dict_setitem k v d) = (map_of d)(k \<mapsto> v)"
  unfolding dict_setitem_def by (rule update_conv')

lemma keys_dict_setitem:
  "map fst (dict_setitem k v d) = (if k \<in> set (map fst d) then map fst d else map fst d @ [k])"
  unfolding dict_setitem_def by (rule update_keys)

lemma in_G_nodes: "n \<in> set (G_nodes G) \<longleftrightarrow> map_of G n \<noteq> None"
  by (simp add: G_nodes_def map_of_eq_None_iff)

lemma G_nodes_add_node:
  "G_nodes (add_node n G) = (if n \<in> set (G_nodes G) then G_nodes G else G_nodes G @ [n])"
  by (simp add: add_node_def G_nodes_def keys_dict_setitem)

lemma map_of_add_node:
  "map_of (add_node n G) = (if n \<in> set (G_nodes G) then map_of G else (map_of G)(n \<mapsto> (None, [])))"
  by (simp add: add_node_def map_of_dict_setitem)

lemma G_nodes_link: "G_nodes (link u v G) = G_nodes G"
  by (auto simp: link_def G_nodes_def keys_dict_setitem split: option.splits
      dest!: map_of_SomeD intro: rev_image_eqI)

lemma map_of_link:
  "map_of (link u v G) =
    (case map_of G u of None \<Rightarrow> map_of G | Some (a, ns) \<Rightarrow> (map_of G)(u \<mapsto> (a, keys_add v ns)))"
  by (simp add: link_def map_of_dict_setitem split: option.splits)

lemma set_keys_add: "set (keys_add v ns) = insert v (set ns)"
  by (auto simp: keys_add_def)

lemma distinct_keys_add: "distinct ns \<Longrightarrow> distinct (keys_add v ns)"
  by (simp add: keys_add_def)

lemma has_edge_add_node: "has_edge (add_node n G) x y = has_edge G x y"
  by (auto simp: has_edge_def map_of_add_node in_G_nodes split: option.splits)

lemma has_edge_link:
  "has_edge (link u v G) x y \<longleftrightarrow> has_edge G x y \<or> (x = u \<and> y = v \<and> u \<in> set (G_nodes G))"
  by (auto simp: has_edge_def map_of_link in_G_nodes set_keys_add split: option.splits)

lemma set_G_nodes_add_edge:
  "set (G_nodes (add_edge (u, v) G)) = insert u (insert v (set (G_nodes G)))"
  by (auto simp: add_edge_def G_nodes_link G_nodes_add_node)

lemma has_edge_add_edge:
  "has_edge (add_edge (u, v) G) x y \<longleftrightarrow>
     has_edge G x y \<or> (x = u \<and> y = v) \<or> (x = v \<and> y = u)"
  by (auto simp: add_edge_def has_edge_link has_edge_add_node G_nodes_link G_nodes_add_node)

lemma G_nodes_add_edge_present:
  "u \<in> set (G_nodes G) \<Longrightarrow> v \<in> set (G_nodes G) \<Longrightarrow> G_nodes (add_edge (u, v) G) = G_nodes G"
  by (simp add: add_edge_def G_nodes_link G_nodes_add_node)

lemma has_edge_fold_add_edge:
  "has_edge (fold add_edge es G) x y \<longleftrightarrow>
     has_edge G x y \<or> (x, y) \<in> set es \<or> (y, x) \<in> set es"
proof (induction es arbitrary: G)
  case Nil
  then show ?case by simp
next
  case (Cons e es)
  obtain u v where e: "e = (u, v)" by (cases e)
  show ?case by (auto simp: Cons.IH e has_edge_add_edge)
qed

lemma G_nodes_fold_add_edge:
  "fst ` set es \<union> snd ` set es \<subseteq> set (G_nodes G) \<Longrightarrow> G_nodes (fold add_edge es G) = G_nodes G"
proof (induction es arbitrary: G)
  case Nil
  then show ?case by simp
next
  case (Cons e es)
  obtain u v where e: "e = (u, v)" by (cases e)
  with Cons.prems have uv: "u \<in> set (G_nodes G)" "v \<in> set (G_nodes G)" by auto
  then have same: "G_nodes (add_edge (u, v) G) = G_nodes G" by (rule G_nodes_add_edge_present)
  with Cons.prems have "fst ` set es \<union> snd ` set es \<subseteq> set (G_nodes (add_edge (u, v) G))" by auto
  then have "G_nodes (fold add_edge es (add_edge (u, v) G)) = G_nodes (add_edge (u, v) G)"
    by (rule Cons.IH)
  with same e show ?case by simp
qed

lemma G_nodes_fold_add_node:
  "distinct (G_nodes G @ ns) \<Longrightarrow> G_nodes (fold add_node ns G) = G_nodes G @ ns"
proof (induction ns arbitrary: G)
  case Nil
  then show ?case by simp
next
  case (Cons n ns)
  from Cons.prems have new: "n \<notin> set (G_nodes G)" by auto
  then have step: "G_nodes (add_node n G) = G_nodes G @ [n]" by (simp add: G_nodes_add_node)
  with Cons.prems have "distinct (G_nodes (add_node n G) @ ns)" by auto
  then have "G_nodes (fold add_node ns (add_node n G)) = G_nodes (add_node n G) @ ns"
    by (rule Cons.IH)
  with step show ?case by simp
qed

lemma set_G_nodes_fold_add_node:
  "set (G_nodes (fold add_node ns G)) = set (G_nodes G) \<union> set ns"
  by (induction ns arbitrary: G) (auto simp: G_nodes_add_node)

lemma has_edge_fold_add_node: "has_edge (fold add_node ns G) x y = has_edge G x y"
  by (induction ns arbitrary: G) (simp_all add: has_edge_add_node)

lemma distinct_G_nodes_add_node: "distinct (G_nodes G) \<Longrightarrow> distinct (G_nodes (add_node n G))"
  by (simp add: G_nodes_add_node)

lemma distinct_G_nodes_fold_add_node:
  "distinct (G_nodes G) \<Longrightarrow> distinct (G_nodes (fold add_node ns G))"
  by (induction ns arbitrary: G) (simp_all add: distinct_G_nodes_add_node)

lemma distinct_G_nodes_add_edge: "distinct (G_nodes G) \<Longrightarrow> distinct (G_nodes (add_edge e G))"
  by (cases e) (simp add: add_edge_def G_nodes_link distinct_G_nodes_add_node)

lemma distinct_G_nodes_fold_add_edge:
  "distinct (G_nodes G) \<Longrightarrow> distinct (G_nodes (fold add_edge es G))"
  by (induction es arbitrary: G) (simp_all add: distinct_G_nodes_add_edge)

lemma set_G_nodes_fold_add_edge:
  "set (G_nodes (fold add_edge es G)) = set (G_nodes G) \<union> fst ` set es \<union> snd ` set es"
proof (induction es arbitrary: G)
  case Nil
  then show ?case by simp
next
  case (Cons e es)
  obtain u v where e: "e = (u, v)" by (cases e)
  show ?case by (auto simp: Cons.IH e set_G_nodes_add_edge)
qed

lemma adj_distinct_add_node:
  assumes "adj_distinct G"
  shows "adj_distinct (add_node n G)"
proof (cases "n \<in> set (G_nodes G)")
  case True
  then have "add_node n G = G" by (simp add: add_node_def)
  with assms show ?thesis by simp
next
  case False
  then have m: "map_of (add_node n G) = (map_of G)(n \<mapsto> (None, []))"
    by (simp add: map_of_add_node)
  show ?thesis
    unfolding adj_distinct_def
  proof (intro allI impI)
    fix k a ns
    assume h: "map_of (add_node n G) k = Some (a, ns)"
    show "distinct ns"
    proof (cases "k = n")
      case True
      with h m show ?thesis by simp
    next
      case False
      with h m have "map_of G k = Some (a, ns)" by simp
      with assms show ?thesis unfolding adj_distinct_def by metis
    qed
  qed
qed

lemma adj_distinct_link:
  assumes "adj_distinct G"
  shows "adj_distinct (link u v G)"
  unfolding adj_distinct_def
proof (intro allI impI)
  fix n a ns
  assume h: "map_of (link u v G) n = Some (a, ns)"
  show "distinct ns"
  proof (cases "map_of G u")
    case None
    then have "link u v G = G" by (simp add: link_def)
    with h assms show ?thesis unfolding adj_distinct_def by metis
  next
    case (Some p)
    obtain a' ns' where p: "p = (a', ns')" by (cases p)
    from Some p assms have d: "distinct ns'" unfolding adj_distinct_def by metis
    from Some p have m: "map_of (link u v G) = (map_of G)(u \<mapsto> (a', keys_add v ns'))"
      by (simp add: map_of_link)
    show ?thesis
    proof (cases "n = u")
      case True
      with h m have "ns = keys_add v ns'" by simp
      with d show ?thesis by (simp add: distinct_keys_add)
    next
      case False
      with h m have "map_of G n = Some (a, ns)" by simp
      with assms show ?thesis unfolding adj_distinct_def by metis
    qed
  qed
qed

lemma adj_distinct_add_edge: "adj_distinct G \<Longrightarrow> adj_distinct (add_edge e G)"
  by (cases e) (simp add: add_edge_def adj_distinct_link adj_distinct_add_node)

lemma adj_distinct_fold_add_edge: "adj_distinct G \<Longrightarrow> adj_distinct (fold add_edge es G)"
  by (induction es arbitrary: G) (simp_all add: adj_distinct_add_edge)

lemma adj_distinct_fold_add_node: "adj_distinct G \<Longrightarrow> adj_distinct (fold add_node ns G)"
  by (induction ns arbitrary: G) (simp_all add: adj_distinct_add_node)

lemma combinations2_subset: "(x, y) \<in> set (combinations2 xs) \<Longrightarrow> x \<in> set xs \<and> y \<in> set xs"
  by (induction xs) auto

lemma combinations2_pair:
  "x \<in> set xs \<Longrightarrow> y \<in> set xs \<Longrightarrow> x \<noteq> y \<Longrightarrow>
   (x, y) \<in> set (combinations2 xs) \<or> (y, x) \<in> set (combinations2 xs)"
  by (induction xs) auto

lemma combinations2_distinct_iff:
  "x \<noteq> y \<Longrightarrow>
   (x, y) \<in> set (combinations2 xs) \<or> (y, x) \<in> set (combinations2 xs) \<longleftrightarrow>
   x \<in> set xs \<and> y \<in> set xs"
  using combinations2_subset combinations2_pair by metis

lemma combinations2_same: "(x, x) \<in> set (combinations2 xs) \<longleftrightarrow> 2 \<le> count_list xs x"
proof (induction xs)
  case Nil
  then show ?case by simp
next
  case (Cons a xs)
  have pos: "x \<in> set xs \<longleftrightarrow> 1 \<le> count_list xs x"
    using count_list_0_iff [of xs x] by auto
  with Cons show ?case by auto
qed

lemma fold_rows:
  "fold (\<lambda>row G. fold add_edge (combinations2 row) G) faces G =
   fold add_edge (concat (map combinations2 faces)) G"
  by (induction faces arbitrary: G) simp_all

lemma set_np_unique: "set (np_unique faces) = \<Union> (set ` set faces)"
  by (simp add: np_unique_def)

lemma distinct_np_unique: "distinct (np_unique faces)"
  by (simp add: np_unique_def)

lemma nifti_to_graph_loaded: "nifti_to_graph faces None None = face_graph faces"
  by (simp add: nifti_to_graph_def load_surface_info_def fold_rows face_graph_def)

lemma nifti_to_graph_given:
  "nifti_to_graph file_faces (Some faces) (Some (np_unique faces)) = face_graph faces"
  by (simp add: nifti_to_graph_def fold_rows face_graph_def)

lemma G_nodes_face_graph: "G_nodes (face_graph faces) = np_unique faces"
proof -
  have start: "G_nodes (fold add_node (np_unique faces) []) = np_unique faces"
    using G_nodes_fold_add_node [of "[]" "np_unique faces"]
    by (simp add: G_nodes_def distinct_np_unique)
  have "fst ` set (concat (map combinations2 faces)) \<union> snd ` set (concat (map combinations2 faces))
      \<subseteq> set (G_nodes (fold add_node (np_unique faces) []))"
    unfolding start set_np_unique using combinations2_subset by fastforce
  then show ?thesis
    unfolding face_graph_def using start by (simp add: G_nodes_fold_add_edge)
qed

lemma has_edge_face_graph:
  "has_edge (face_graph faces) u v \<longleftrightarrow>
    (\<exists>row\<in>set faces. (u, v) \<in> set (combinations2 row) \<or> (v, u) \<in> set (combinations2 row))"
proof -
  have "\<not> has_edge [] u v" by (simp add: has_edge_def)
  then show ?thesis
    unfolding face_graph_def has_edge_fold_add_edge has_edge_fold_add_node by auto
qed

lemma adj_distinct_face_graph: "adj_distinct (face_graph faces)"
  unfolding face_graph_def
  by (intro adj_distinct_fold_add_edge adj_distinct_fold_add_node) (simp add: adj_distinct_def)

lemma G_adj_Inr_iff: "G_adj G u = Inr ns \<longleftrightarrow> (\<exists>a. map_of G u = Some (a, ns))"
  by (cases "map_of G u") (auto simp: G_adj_def)

text \<open>
  C4. The graph built from a face table has each distinct vertex id of the table as a
  node, once, and no other node; two different vertices are joined by an edge exactly
  when some row holds both (wherever they stand in the row); a vertex is joined to
  itself exactly when some row holds it twice; adjacency is symmetric and no neighbour
  is entered twice, however many rows hold the pair. The graph is the same whether the
  table and its distinct ids are passed in or loaded.
\<close>

theorem nifti_to_graph_nodes_and_edges:
  "nifti_to_graph file_faces (Some faces) (Some (np_unique faces)) = nifti_to_graph faces None None \<and>
   (let G = nifti_to_graph faces None None in
      distinct (G_nodes G) \<and>
      set (G_nodes G) = \<Union> (set ` set faces) \<and>
      (\<forall>u v. u \<noteq> v \<longrightarrow> has_edge G u v = (\<exists>row\<in>set faces. u \<in> set row \<and> v \<in> set row)) \<and>
      (\<forall>u. has_edge G u u = (\<exists>row\<in>set faces. 2 \<le> count_list row u)) \<and>
      (\<forall>u v. has_edge G u v = has_edge G v u) \<and>
      (\<forall>u ns. G_adj G u = Inr ns \<longrightarrow> distinct ns))"
proof -
  have edges: "\<forall>u v. u \<noteq> v \<longrightarrow>
      has_edge (face_graph faces) u v = (\<exists>row\<in>set faces. u \<in> set row \<and> v \<in> set row)"
    by (simp add: has_edge_face_graph combinations2_distinct_iff)
  have loops: "\<forall>u. has_edge (face_graph faces) u u = (\<exists>row\<in>set faces. 2 \<le> count_list row u)"
    by (simp add: has_edge_face_graph combinations2_same)
  have sym: "\<forall>u v. has_edge (face_graph faces) u v = has_edge (face_graph faces) v u"
    unfolding has_edge_face_graph by blast
  have once: "\<forall>u ns. G_adj (face_graph faces) u = Inr ns \<longrightarrow> distinct ns"
  proof (intro allI impI)
    fix u ns
    assume "G_adj (face_graph faces) u = Inr ns"
    then obtain a where "map_of (face_graph faces) u = Some (a, ns)"
      unfolding G_adj_Inr_iff by blast
    with adj_distinct_face_graph [of faces] show "distinct ns"
      unfolding adj_distinct_def by blast
  qed
  have nodes: "distinct (G_nodes (face_graph faces))"
    "set (G_nodes (face_graph faces)) = \<Union> (set ` set faces)"
    by (simp_all add: G_nodes_face_graph distinct_np_unique set_np_unique)
  show ?thesis
    unfolding nifti_to_graph_given nifti_to_graph_loaded Let_def
    by (intro conjI refl nodes edges loops sym once)
qed

theorem nifti_to_graph_nodes_and_edges_witness:
  "set (G_nodes (nifti_to_graph example_faces None None)) = {0, 1, 2, 3} \<and>
   has_edge (nifti_to_graph example_faces None None) 0 2 \<and>
   \<not> has_edge (nifti_to_graph example_faces None None) 0 3 \<and>
   \<not> has_edge (nifti_to_graph example_faces None None) 1 1"
proof -
  note t = nifti_to_graph_nodes_and_edges [of "[]" example_faces, unfolded Let_def]
  have n: "set (G_nodes (nifti_to_graph example_faces None None)) = {0, 1, 2, 3}"
    using t by (auto simp: example_faces_def)
  have a: "has_edge (nifti_to_graph example_faces None None) 0 2"
    using t by (simp add: example_faces_def)
  have b: "\<not> has_edge (nifti_to_graph example_faces None None) 0 3"
    using t by (simp add: example_faces_def)
  have c: "\<not> has_edge (nifti_to_graph example_faces None None) 1 1"
    using t by (simp add: example_faces_def)
  from n a b c show ?thesis by simp
qed

section \<open>The maximum neighbour\<close>

lemma nan_first_neighbours:
  "get_neighbours_and_vals nan_first_graph (SeedNodes [0]) = Inr [(1, NaN), (2, Num 5)]"
  by (simp add: get_neighbours_and_vals_def G_adj_def G_map_val_def dict_zip_def
      dict_setitem_def nan_first_graph_def)

text \<open>
  C6. In \<open>nan_first_graph\<close> node 0 has the neighbours 1 (not-a-number) and 2 (value 5),
  in this order. The neighbourhood holds a present value, and \<^verbatim>\<open>max_neighbour\<close> returns
  neighbour 1 with not-a-number: the scan of \<^verbatim>\<open>max\<close> starts at the first item and no
  value compares greater than not-a-number. The ascent step then leaves node 0 (value 1)
  in place, next to a neighbour of value 5.
\<close>

theorem max_neighbour_returns_nan:
  "get_multi_neighbours_and_vals nan_first_graph (SeedNodes [0]) 1 = Inr [(1, NaN), (2, Num 5)] \<and>
   max_neighbour nan_first_graph 0 1 = Inr (1, NaN) \<and>
   nodes_gradient_step nan_first_graph [0] 1 = Inr [0]"
proof -
  have multi: "get_multi_neighbours_and_vals nan_first_graph (SeedNodes [0]) 1 = Inr [(1, NaN), (2, Num 5)]"
    by (simp add: get_multi_neighbours_and_vals_def nan_first_neighbours dict_update_def
        dict_setitem_def)
  have m: "max_neighbour nan_first_graph 0 1 = Inr (1, NaN)"
    by (simp add: max_neighbour_def multi py_max_def)
  have "get_node_attributes_as_list nan_first_graph [0] = Inr [Num 1]"
    by (simp add: get_node_attributes_as_list_def G_map_val_def nan_first_graph_def)
  then have "nodes_gradient_step nan_first_graph [0] 1 = Inr [0]"
    by (simp add: nodes_gradient_step_def m)
  with multi m show ?thesis by simp
qed

lemma max_loop_map:
  "max_loop key (f m) (map f xs) = map_sum id f (max_loop (key \<circ> f) m xs)"
  by (induction xs arbitrary: m) (auto split: sum.splits)

lemma max_loop_cong:
  "(\<forall>x\<in>set (m # xs). key x = key' x) \<Longrightarrow> max_loop key m xs = max_loop key' m xs"
  by (induction xs arbitrary: m) (auto split: sum.splits)

lemma py_gt_Some: "py_gt (Some a) (Some b) = Inr (float_lt b a)"
  by (cases a; cases b) simp_all

lemma max_loop_scan: "max_loop (Some \<circ> snd) m xs = Inr (scan_max m xs)"
  by (induction xs arbitrary: m) (simp_all add: py_gt_Some)

lemma scan_max_in: "scan_max m xs \<in> set (m # xs)"
  by (induction xs arbitrary: m) auto

lemma scan_max_nan_first: "snd m = NaN \<Longrightarrow> scan_max m xs = m"
  by (induction xs) simp_all

lemma scan_max_all_nan: "\<forall>x\<in>set (m # xs). snd x = NaN \<Longrightarrow> snd (scan_max m xs) = NaN"
  using scan_max_in [of m xs] by blast

lemma scan_max_num:
  "snd m = Num a \<Longrightarrow>
   \<exists>b. snd (scan_max m xs) = Num b \<and> a \<le> b \<and> (\<forall>x\<in>set xs. \<forall>c. snd x = Num c \<longrightarrow> c \<le> b)"
proof (induction xs arbitrary: m a)
  case Nil
  then show ?case by simp
next
  case (Cons x xs)
  show ?case
  proof (cases "snd x")
    case NaN
    with Cons.prems have "scan_max m (x # xs) = scan_max m xs" by simp
    with Cons.IH [OF Cons.prems] NaN show ?thesis by auto
  next
    case (Num c)
    show ?thesis
    proof (cases "a < c")
      case True
      with Num Cons.prems have "scan_max m (x # xs) = scan_max x xs" by simp
      with Cons.IH [OF Num] True Num show ?thesis by fastforce
    next
      case False
      with Num Cons.prems have "scan_max m (x # xs) = scan_max m xs" by simp
      with Cons.IH [OF Cons.prems] False Num show ?thesis by fastforce
    qed
  qed
qed

lemma multi_loop_distinct:
  "distinct (map fst acc) \<Longrightarrow> multi_loop G nodes i acc = Inr d \<Longrightarrow> distinct (map fst d)"
proof (induction i arbitrary: acc)
  case 0
  then show ?case by simp
next
  case (Suc i)
  from Suc.prems(2) obtain nb where
    nb: "get_neighbours_and_vals G nodes = Inr nb" and
    rest: "multi_loop G nodes i (dict_update acc nb) = Inr d"
    by (auto split: sum.splits)
  from Suc.prems(1) have "distinct (map fst (dict_update acc nb))"
    unfolding dict_update_def by (rule distinct_fold_setitem)
  from Suc.IH [OF this rest] show ?case .
qed

lemma get_multi_distinct:
  "get_multi_neighbours_and_vals G nodes k = Inr d \<Longrightarrow> distinct (map fst d)"
  unfolding get_multi_neighbours_and_vals_def using multi_loop_distinct [of "[]"] by simp

lemma py_max_keys:
  assumes "distinct (map fst d)" and d: "d = p # ps"
  shows "py_max (map_of d) (map fst d) = Inr (fst (scan_max p ps))"
proof -
  define f where "f = map_of d"
  have "\<forall>x\<in>set d. f (fst x) = Some (snd x)"
    unfolding f_def using assms(1) by (auto intro!: map_of_is_SomeI)
  then have agree: "\<forall>x\<in>set (p # ps). (f \<circ> fst) x = (Some \<circ> snd) x"
    unfolding d by simp
  have "max_loop f (fst p) (map fst ps) = map_sum id fst (max_loop (f \<circ> fst) p ps)"
    by (rule max_loop_map)
  also have "max_loop (f \<circ> fst) p ps = max_loop (Some \<circ> snd) p ps"
    using agree by (rule max_loop_cong)
  finally have "py_max f (map fst (p # ps)) = Inr (fst (scan_max p ps))"
    by (simp add: py_max_def max_loop_scan)
  then show ?thesis unfolding f_def d .
qed

lemma py_max_values: "py_max Some (map snd (p # ps)) = Inr (snd (scan_max p ps))"
proof -
  have "max_loop Some (snd p) (map snd ps) = map_sum id snd (max_loop (Some \<circ> snd) p ps)"
    by (rule max_loop_map)
  then show ?thesis by (simp add: py_max_def max_loop_scan)
qed

lemma max_neighbour_scan:
  assumes "get_multi_neighbours_and_vals G (SeedNodes [node]) k = Inr d"
  shows "max_neighbour G node k =
    (case d of [] \<Rightarrow> Inl ValueError | p # ps \<Rightarrow> Inr (scan_max p ps))"
proof (cases d)
  case Nil
  with assms show ?thesis by (simp add: max_neighbour_def py_max_def)
next
  case (Cons p ps)
  from assms have "distinct (map fst d)" by (rule get_multi_distinct)
  then have k: "py_max (map_of d) (map fst d) = Inr (fst (scan_max p ps))"
    using Cons by (rule py_max_keys)
  from Cons have v: "py_max Some (map snd d) = Inr (snd (scan_max p ps))"
    using py_max_values [of p ps] by simp
  from assms k v Cons show ?thesis by (simp add: max_neighbour_def)
qed

lemma max_neighbour_all_nan:
  assumes "get_multi_neighbours_and_vals G (SeedNodes [node]) k = Inr d"
    and "d \<noteq> []" and "\<forall>v\<in>snd ` set d. v = NaN"
  shows "\<exists>m. max_neighbour G node k = Inr (m, NaN)"
proof -
  from assms(2) obtain p ps where d: "d = p # ps" by (cases d) auto
  with assms(3) have "\<forall>x\<in>set (p # ps). snd x = NaN" by auto
  then have "snd (scan_max p ps) = NaN" by (rule scan_max_all_nan)
  moreover have "max_neighbour G node k = Inr (scan_max p ps)"
    using max_neighbour_scan [OF assms(1)] d by simp
  ultimately show ?thesis by (cases "scan_max p ps") auto
qed

lemma max_neighbour_nan_iff:
  assumes "get_multi_neighbours_and_vals G (SeedNodes [node]) k = Inr (p # ps)"
    and "max_neighbour G node k = Inr (m, v)"
  shows "v = NaN \<longleftrightarrow> snd p = NaN"
proof -
  from max_neighbour_scan [OF assms(1)] assms(2) have mv: "scan_max p ps = (m, v)" by simp
  show ?thesis
  proof (cases "snd p")
    case NaN
    then have "scan_max p ps = p" by (rule scan_max_nan_first)
    with mv NaN show ?thesis by auto
  next
    case (Num a)
    from scan_max_num [OF this, of ps] mv Num show ?thesis by auto
  qed
qed

lemma attributes_loop_Inr:
  "\<forall>n\<in>set ns. \<exists>v. G_map_val G n = Inr v \<Longrightarrow>
   attributes_loop G ns tmp = Inr (tmp @ map (\<lambda>n. projr (G_map_val G n)) ns)"
  by (induction ns arbitrary: tmp) auto

lemma step_loop_Inr:
  "\<forall>p\<in>set ps. \<exists>mi. max_neighbour G (fst p) k = Inr mi \<Longrightarrow>
   step_loop G k ps acc =
     Inr (acc @ map (\<lambda>p. let mi = projr (max_neighbour G (fst p) k)
                        in if float_lt (snd p) (snd mi) then fst mi else fst p) ps)"
proof (induction ps arbitrary: acc)
  case Nil
  then show ?case by simp
next
  case (Cons p ps)
  obtain node retval where p: "p = (node, retval)" by (cases p)
  from Cons.prems p obtain mi where mi: "max_neighbour G node k = Inr mi" by auto
  from Cons.prems have "\<forall>p\<in>set ps. \<exists>mi. max_neighbour G (fst p) k = Inr mi" by simp
  from Cons.IH [OF this] p mi show ?case by (simp add: Let_def)
qed

section \<open>Smoothing passes\<close>

lemma dict_eqI:
  "map fst xs = map fst ys \<Longrightarrow> distinct (map fst xs) \<Longrightarrow> map_of xs = map_of ys \<Longrightarrow> xs = ys"
proof (induction xs arbitrary: ys)
  case Nil
  then show ?case by simp
next
  case (Cons x xs)
  from Cons.prems(1) obtain y ys' where ys: "ys = y # ys'" by (cases ys) auto
  with Cons.prems(1) have k: "fst x = fst y" and ks: "map fst xs = map fst ys'" by auto
  from fun_cong [OF Cons.prems(3), of "fst x"] ys k have v: "snd x = snd y" by simp
  from k v have xy: "x = y" by (simp add: prod_eq_iff)
  have "map_of xs = map_of ys'"
  proof
    fix a
    show "map_of xs a = map_of ys' a"
    proof (cases "a = fst x")
      case True
      with Cons.prems(2) have nx: "a \<notin> fst ` set xs" by auto
      from nx ks have ny: "a \<notin> fst ` set ys'" by (metis set_map)
      from nx have "map_of xs a = None" by (simp add: map_of_eq_None_iff)
      moreover from ny have "map_of ys' a = None" by (simp add: map_of_eq_None_iff)
      ultimately show ?thesis by simp
    next
      case False
      from fun_cong [OF Cons.prems(3), of a] ys False k show ?thesis by simp
    qed
  qed
  with Cons.IH [of ys'] ks Cons.prems(2) have "xs = ys'" by simp
  with xy ys show ?case by simp
qed

lemma set_node_attributes_fold: "set_node_attributes G vals = fold set_attr vals G"
  by (simp add: set_node_attributes_def)

lemma G_nodes_set_attr: "G_nodes (set_attr p G) = G_nodes G"
  by (cases p) (auto simp: set_attr_def G_nodes_def keys_dict_setitem split: option.splits
      dest!: map_of_SomeD intro: rev_image_eqI)

lemma map_of_set_attr:
  "map_of (set_attr (n, v) G) m =
     (if m = n then (case map_of G n of None \<Rightarrow> None | Some (a, ns) \<Rightarrow> Some (Some v, ns))
      else map_of G m)"
  by (auto simp: set_attr_def map_of_dict_setitem split: option.splits)

lemma G_nodes_set_node_attributes: "G_nodes (set_node_attributes G vals) = G_nodes G"
  unfolding set_node_attributes_fold
  by (induction vals arbitrary: G) (simp_all add: G_nodes_set_attr)

lemma map_of_set_node_attributes:
  "distinct (map fst vals) \<Longrightarrow>
   map_of (set_node_attributes G vals) m =
     (case map_of G m of
        None \<Rightarrow> None
      | Some (a, ns) \<Rightarrow> Some (case map_of vals m of None \<Rightarrow> a | Some v \<Rightarrow> Some v, ns))"
  unfolding set_node_attributes_fold
proof (induction vals arbitrary: G)
  case Nil
  then show ?case by (simp split: option.splits)
next
  case (Cons p vals)
  obtain n v where p: "p = (n, v)" by (cases p)
  from Cons.prems p have fresh: "map_of vals n = None" and d: "distinct (map fst vals)"
    by (auto simp: map_of_eq_None_iff)
  have ih: "map_of (fold set_attr vals (set_attr (n, v) G)) m =
     (case map_of (set_attr (n, v) G) m of
        None \<Rightarrow> None
      | Some (a, ns) \<Rightarrow> Some (case map_of vals m of None \<Rightarrow> a | Some v \<Rightarrow> Some v, ns))"
    using d by (rule Cons.IH)
  show ?case
  proof (cases "m = n")
    case True
    with ih fresh show ?thesis
      unfolding p by (cases "map_of G n") (auto simp: map_of_set_attr)
  next
    case False
    with ih show ?thesis unfolding p by (cases "map_of G m") (auto simp: map_of_set_attr)
  qed
qed

lemma map_of_map_attr:
  "map_of (map (\<lambda>(n, a, ns). (n, g n a, ns)) xs) m =
     (case map_of xs m of None \<Rightarrow> None | Some (a, ns) \<Rightarrow> Some (g m a, ns))"
  by (induction xs) auto

lemma G_nodes_batch_pass: "G_nodes (batch_pass S targets k) = G_nodes S"
  by (simp add: batch_pass_def G_nodes_def comp_def case_prod_beta)

lemma map_of_batch_pass:
  "map_of (batch_pass S targets k) m =
     (case map_of S m of
        None \<Rightarrow> None
      | Some (a, ns) \<Rightarrow> Some (if m \<in> set targets then Some (neighbourhood_mean S k m) else a, ns))"
  unfolding batch_pass_def
  using map_of_map_attr [of "\<lambda>n a. if n \<in> set targets then Some (neighbourhood_mean S k n) else a" S m]
  by simp

lemma kernel_loop_Inr:
  "kernel_loop S k nodes cmd0 = Inr cmd \<Longrightarrow> distinct (map fst cmd0) \<Longrightarrow>
   distinct (map fst cmd) \<and>
   (\<forall>n. map_of cmd n =
      (if n \<in> set nodes then Some (neighbourhood_mean S k n) else map_of cmd0 n))"
proof (induction nodes arbitrary: cmd0)
  case Nil
  then show ?case by simp
next
  case (Cons node rest)
  from Cons.prems(1) obtain out where
    out: "get_multi_neighbours_and_vals S (SeedNodes [node]) k = Inr out" and
    rest: "kernel_loop S k rest (dict_setitem node (nanmean (map snd out)) cmd0) = Inr cmd"
    by (auto split: sum.splits)
  from Cons.prems(2) have d: "distinct (map fst (dict_setitem node (nanmean (map snd out)) cmd0))"
    by (rule distinct_dict_setitem)
  from out have mean: "neighbourhood_mean S k node = nanmean (map snd out)"
    by (simp add: neighbourhood_mean_def)
  from Cons.IH [OF rest d] mean show ?case
    by (auto simp: map_of_dict_setitem)
qed

lemma kernel_loop_total:
  "\<forall>n\<in>set nodes. \<exists>out. get_multi_neighbours_and_vals S (SeedNodes [n]) k = Inr out \<Longrightarrow>
   \<exists>cmd. kernel_loop S k nodes cmd0 = Inr cmd"
  by (induction nodes arbitrary: cmd0) auto

lemma pass_is_batch:
  assumes "distinct (G_nodes S)" and "kernel_loop S k targets [] = Inr cmd"
  shows "set_node_attributes S cmd = batch_pass S targets k"
proof (rule dict_eqI)
  show "map fst (set_node_attributes S cmd) = map fst (batch_pass S targets k)"
    using G_nodes_set_node_attributes [of S cmd] G_nodes_batch_pass [of S targets k]
    by (simp add: G_nodes_def)
  show "distinct (map fst (set_node_attributes S cmd))"
    using G_nodes_set_node_attributes [of S cmd] assms(1) by (simp add: G_nodes_def)
  from kernel_loop_Inr [OF assms(2)] have
    d: "distinct (map fst cmd)" and
    m: "\<And>n. map_of cmd n = (if n \<in> set targets then Some (neighbourhood_mean S k n) else None)"
    by simp_all
  show "map_of (set_node_attributes S cmd) = map_of (batch_pass S targets k)"
  proof
    fix n
    show "map_of (set_node_attributes S cmd) n = map_of (batch_pass S targets k) n"
      unfolding map_of_set_node_attributes [OF d] map_of_batch_pass m
      by (cases "map_of S n") auto
  qed
qed

lemma its_loop_frame:
  "its_loop Gs targets k i h = (r, h') \<Longrightarrow>
   lists h' = lists h \<and> next_free h' = next_free h \<and> (\<forall>a. a \<noteq> Gs \<longrightarrow> graphs h' a = graphs h a)"
proof (induction i arbitrary: h)
  case 0
  then show ?case by simp
next
  case (Suc i)
  show ?case
  proof (cases "kernel_loop (graphs h Gs) k targets []")
    case (Inl e)
    with Suc.prems show ?thesis by simp
  next
    case (Inr cmd)
    with Suc.prems have "its_loop Gs targets k i
        (h\<lparr>graphs := (graphs h)(Gs := set_node_attributes (graphs h Gs) cmd)\<rparr>) = (r, h')"
      by simp
    from Suc.IH [OF this] show ?thesis by simp
  qed
qed

lemma its_loop_batch:
  "distinct (G_nodes (graphs h Gs)) \<Longrightarrow> its_loop Gs targets k i h = (None, h') \<Longrightarrow>
   graphs h' Gs = ((\<lambda>S. batch_pass S targets k) ^^ i) (graphs h Gs)"
proof (induction i arbitrary: h)
  case 0
  then show ?case by simp
next
  case (Suc i)
  show ?case
  proof (cases "kernel_loop (graphs h Gs) k targets []")
    case (Inl e)
    with Suc.prems show ?thesis by simp
  next
    case (Inr cmd)
    let ?h1 = "h\<lparr>graphs := (graphs h)(Gs := set_node_attributes (graphs h Gs) cmd)\<rparr>"
    from Suc.prems(1) Inr have pass: "graphs ?h1 Gs = batch_pass (graphs h Gs) targets k"
      by (simp add: pass_is_batch)
    with Suc.prems(1) have d: "distinct (G_nodes (graphs ?h1 Gs))"
      by (simp add: G_nodes_batch_pass)
    from Inr Suc.prems(2) have "its_loop Gs targets k i ?h1 = (None, h')" by simp
    from Suc.IH [OF d this] pass
      funpow_swap1 [of "\<lambda>S. batch_pass S targets k" i "graphs h Gs"]
    show ?thesis by simp
  qed
qed

section \<open>Copies of a graph\<close>

lemma nx_wf_iff:
  "nx_wf G \<longleftrightarrow>
     distinct (G_nodes G) \<and>
     (\<forall>n a ns. (n, a, ns) \<in> set G \<longrightarrow> distinct ns \<and> (\<forall>m\<in>set ns. has_edge G m n))"
  unfolding nx_wf_def list_all_iff by auto

lemma has_edge_iff:
  "distinct (G_nodes G) \<Longrightarrow> has_edge G x y \<longleftrightarrow> (\<exists>a ns. (x, a, ns) \<in> set G \<and> y \<in> set ns)"
proof -
  assume d: "distinct (G_nodes G)"
  have iff: "map_of G x = Some (a, ns) \<longleftrightarrow> (x, a, ns) \<in> set G" for a ns
    using d by (simp add: G_nodes_def)
  show ?thesis
  proof (cases "map_of G x")
    case None
    with iff have "\<And>a ns. (x, a, ns) \<notin> set G" by simp
    with None show ?thesis by (simp add: has_edge_def)
  next
    case (Some p)
    obtain a ns where p: "p = (a, ns)" by (cases p)
    with Some have m: "map_of G x = Some (a, ns)" by simp
    have only: "\<And>a' ns'. (x, a', ns') \<in> set G \<longleftrightarrow> a' = a \<and> ns' = ns"
      unfolding iff [symmetric] m by auto
    from Some p have "has_edge G x y \<longleftrightarrow> y \<in> set ns" by (simp add: has_edge_def)
    with only show ?thesis by simp
  qed
qed

lemma has_edge_node: "has_edge G x y \<Longrightarrow> x \<in> set (G_nodes G)"
  by (cases "map_of G x") (auto simp: has_edge_def in_G_nodes)

lemma add_node_attr_new:
  "n \<notin> set (G_nodes G) \<Longrightarrow> add_node_attr (n, a) G = G @ [(n, a, [])]"
proof -
  assume n: "n \<notin> set (G_nodes G)"
  then have "map_of G n = None" by (simp add: G_nodes_def map_of_eq_None_iff)
  moreover from n have "dict_setitem n (a, []) G = G @ [(n, a, [])]"
    by (intro dict_setitem_new) (simp add: G_nodes_def)
  ultimately show ?thesis by (simp add: add_node_attr_def)
qed

lemma fold_add_node_attr:
  "distinct (G_nodes acc @ map fst ps) \<Longrightarrow>
   fold add_node_attr ps acc = acc @ map (\<lambda>(n, a). (n, a, [])) ps"
proof (induction ps arbitrary: acc)
  case Nil
  then show ?case by simp
next
  case (Cons p ps)
  obtain n a where p: "p = (n, a)" by (cases p)
  from Cons.prems p have "n \<notin> set (G_nodes acc)" by auto
  then have step: "add_node_attr (n, a) acc = acc @ [(n, a, [])]" by (rule add_node_attr_new)
  from Cons.prems p have "distinct (G_nodes (acc @ [(n, a, [])]) @ map fst ps)"
    by (auto simp: G_nodes_def)
  from Cons.IH [OF this] step p show ?case by simp
qed

lemma distinct_G_nodes_add_node_attr:
  "distinct (G_nodes G) \<Longrightarrow> distinct (G_nodes (add_node_attr p G))"
  by (cases p; cases "map_of G (fst p)")
     (auto simp: add_node_attr_def G_nodes_def intro: distinct_dict_setitem)

lemma distinct_G_nodes_fold_add_node_attr:
  "distinct (G_nodes G) \<Longrightarrow> distinct (G_nodes (fold add_node_attr ps G))"
  by (induction ps arbitrary: G) (simp_all add: distinct_G_nodes_add_node_attr)

lemma distinct_G_nodes_nx_copy: "distinct (G_nodes (nx_copy G))"
  unfolding nx_copy_def
  by (intro distinct_G_nodes_fold_add_edge distinct_G_nodes_fold_add_node_attr)
     (simp add: G_nodes_def)

lemma nx_copy_bare:
  "distinct (G_nodes G) \<Longrightarrow> nx_copy G = fold add_edge (arcs G) (bare G)"
proof -
  assume "distinct (G_nodes G)"
  then have "distinct (G_nodes [] @ map fst (map (\<lambda>(n, a, ns). (n, a)) G))"
    by (simp add: G_nodes_def comp_def case_prod_beta)
  then have "fold add_node_attr (map (\<lambda>(n, a, ns). (n, a)) G) [] =
      [] @ map (\<lambda>(n, a). (n, a, [])) (map (\<lambda>(n, a, ns). (n, a)) G)"
    by (rule fold_add_node_attr)
  also have "\<dots> = bare G"
    unfolding bare_def by (induction G) auto
  finally show ?thesis
    unfolding nx_copy_def arcs_def by simp
qed

lemma G_nodes_bare: "G_nodes (bare G) = G_nodes G"
  by (simp add: bare_def G_nodes_def comp_def case_prod_beta)

lemma map_of_bare:
  "map_of (bare G) n = (case map_of G n of None \<Rightarrow> None | Some (a, ns) \<Rightarrow> Some (a, []))"
  unfolding bare_def by (induction G) auto

lemma has_edge_bare: "\<not> has_edge (bare G) x y"
  by (cases "map_of G x") (auto simp: has_edge_def map_of_bare)

lemma in_arcs: "(x, y) \<in> set (arcs G) \<longleftrightarrow> (\<exists>a ns. (x, a, ns) \<in> set G \<and> y \<in> set ns)"
  by (fastforce simp: arcs_def)

lemma arcs_in_nodes:
  assumes "nx_wf G"
  shows "fst ` set (arcs G) \<union> snd ` set (arcs G) \<subseteq> set (G_nodes (bare G))"
proof -
  from assms have d: "distinct (G_nodes G)" by (simp add: nx_wf_iff)
  have "x \<in> set (G_nodes G) \<and> y \<in> set (G_nodes G)" if "(x, y) \<in> set (arcs G)" for x y
  proof -
    from that obtain a ns where e: "(x, a, ns) \<in> set G" "y \<in> set ns"
      unfolding in_arcs by blast
    from e(1) have "x \<in> set (G_nodes G)" by (force simp: G_nodes_def)
    moreover from assms e have "has_edge G y x" unfolding nx_wf_iff by blast
    then have "y \<in> set (G_nodes G)" by (rule has_edge_node)
    ultimately show ?thesis by simp
  qed
  then show ?thesis unfolding G_nodes_bare by auto
qed

lemma G_nodes_nx_copy: "nx_wf G \<Longrightarrow> G_nodes (nx_copy G) = G_nodes G"
  using G_nodes_fold_add_edge [OF arcs_in_nodes, of G]
  by (simp add: nx_copy_bare nx_wf_iff G_nodes_bare)

lemma has_edge_nx_copy:
  assumes "nx_wf G"
  shows "has_edge (nx_copy G) x y = has_edge G x y"
proof -
  from assms have d: "distinct (G_nodes G)" by (simp add: nx_wf_iff)
  have sym: "has_edge G y x \<Longrightarrow> has_edge G x y" for x y
  proof -
    assume "has_edge G y x"
    with d obtain a ns where "(y, a, ns) \<in> set G" "x \<in> set ns"
      unfolding has_edge_iff [OF d] by blast
    with assms show "has_edge G x y" unfolding nx_wf_iff by blast
  qed
  have "has_edge (nx_copy G) x y \<longleftrightarrow> has_edge G x y \<or> has_edge G y x"
    unfolding nx_copy_bare [OF d] has_edge_fold_add_edge in_arcs has_edge_iff [OF d]
    by (simp add: has_edge_bare)
  with sym show ?thesis by blast
qed

lemma G_map_val_attr:
  "G_map_val G n =
     (case map_option fst (map_of G n) of
        None \<Rightarrow> Inl KeyError
      | Some None \<Rightarrow> Inl KeyError
      | Some (Some v) \<Rightarrow> Inr v)"
  by (cases "map_of G n") (auto simp: G_map_val_def split: option.splits)

lemma attr_link: "map_option fst (map_of (link u v G) n) = map_option fst (map_of G n)"
  by (cases "map_of G u") (auto simp: map_of_link)

lemma attr_add_node:
  "n \<in> set (G_nodes G) \<Longrightarrow> map_of (add_node m G) n = map_of G n"
  by (auto simp: map_of_add_node)

lemma attr_add_edge:
  "n \<in> set (G_nodes G) \<Longrightarrow>
   map_option fst (map_of (add_edge e G) n) = map_option fst (map_of G n)"
  by (cases e) (simp add: add_edge_def attr_link attr_add_node G_nodes_add_node)

lemma attr_fold_add_edge:
  "n \<in> set (G_nodes G) \<Longrightarrow>
   map_option fst (map_of (fold add_edge es G) n) = map_option fst (map_of G n)"
proof (induction es arbitrary: G)
  case Nil
  then show ?case by simp
next
  case (Cons e es)
  obtain u v where e: "e = (u, v)" by (cases e)
  from Cons.prems have "n \<in> set (G_nodes (add_edge e G))"
    unfolding e by (simp add: set_G_nodes_add_edge)
  from Cons.IH [OF this] Cons.prems show ?case by (simp add: attr_add_edge)
qed

lemma attr_bare: "map_option fst (map_of (bare G) n) = map_option fst (map_of G n)"
  by (cases "map_of G n") (auto simp: map_of_bare)

lemma G_map_val_nx_copy:
  assumes "nx_wf G"
  shows "G_map_val (nx_copy G) n = G_map_val G n"
proof (cases "n \<in> set (G_nodes G)")
  case True
  from assms have d: "distinct (G_nodes G)" by (simp add: nx_wf_iff)
  from True have "n \<in> set (G_nodes (bare G))" by (simp add: G_nodes_bare)
  then have "map_option fst (map_of (nx_copy G) n) = map_option fst (map_of G n)"
    unfolding nx_copy_bare [OF d] by (simp add: attr_fold_add_edge attr_bare)
  then show ?thesis by (simp add: G_map_val_attr)
next
  case False
  with assms have "n \<notin> set (G_nodes (nx_copy G))" by (simp add: G_nodes_nx_copy)
  with False have "map_of (nx_copy G) n = None" "map_of G n = None"
    by (simp_all add: G_nodes_def map_of_eq_None_iff)
  then show ?thesis by (simp add: G_map_val_def)
qed

lemma set_dict_setitem_fun:
  assumes "\<forall>p\<in>set d. f (fst p) = snd p" and "f k = v"
  shows "set (dict_setitem k v d) = insert (k, v) (set d)"
proof (cases "map_of d k")
  case None
  then have "k \<notin> fst ` set d" by (simp add: map_of_eq_None_iff)
  then show ?thesis by (simp add: dict_setitem_new)
next
  case (Some v')
  then have "(k, v') \<in> set d" by (rule map_of_SomeD)
  with assms have "v' = v" by auto
  with Some have "dict_setitem k v d = d" unfolding dict_setitem_def by (simp add: update_triv)
  with \<open>(k, v') \<in> set d\<close> \<open>v' = v\<close> show ?thesis by auto
qed

lemma set_fold_setitem_fun:
  "\<forall>p\<in>set d \<union> set ps. f (fst p) = snd p \<Longrightarrow>
   set (fold (\<lambda>(k, v). dict_setitem k v) ps d) = set d \<union> set ps"
proof (induction ps arbitrary: d)
  case Nil
  then show ?case by simp
next
  case (Cons p ps)
  obtain k v where p: "p = (k, v)" by (cases p)
  from Cons.prems p have step: "set (dict_setitem k v d) = insert (k, v) (set d)"
    by (intro set_dict_setitem_fun [where f = f]) auto
  with Cons.prems p have "\<forall>q\<in>set (dict_setitem k v d) \<union> set ps. f (fst q) = snd q" by auto
  from Cons.IH [OF this] step p show ?case by auto
qed

lemma has_edge_G_adj: "has_edge G s m \<longleftrightarrow> (\<exists>nbs. G_adj G s = Inr nbs \<and> m \<in> set nbs)"
  by (cases "map_of G s") (auto simp: has_edge_def G_adj_def)

lemma neighbours_loop_pairs:
  "neighbours_loop G nbs acc = Inr acc' \<Longrightarrow> length (fst acc) = length (snd acc) \<Longrightarrow>
   length (fst acc') = length (snd acc') \<and>
   set (zip (fst acc') (snd acc')) =
     set (zip (fst acc) (snd acc)) \<union> {(m, v). m \<in> set nbs \<and> G_map_val G m = Inr v}"
proof (induction nbs arbitrary: acc)
  case Nil
  then show ?case by simp
next
  case (Cons nb nbs)
  from Cons.prems(1) obtain v where
    v: "G_map_val G nb = Inr v" and
    rest: "neighbours_loop G nbs (fst acc @ [nb], snd acc @ [v]) = Inr acc'"
    by (auto split: sum.splits)
  from Cons.prems(2) have len: "length (fst (fst acc @ [nb], snd acc @ [v])) =
      length (snd (fst acc @ [nb], snd acc @ [v]))" by simp
  from Cons.IH [OF rest len] Cons.prems(2) v show ?case by auto
qed

lemma nodes_loop_pairs:
  "nodes_loop G ns acc = Inr acc' \<Longrightarrow> length (fst acc) = length (snd acc) \<Longrightarrow>
   length (fst acc') = length (snd acc') \<and>
   set (zip (fst acc') (snd acc')) = set (zip (fst acc) (snd acc)) \<union> reach G ns"
proof (induction ns arbitrary: acc)
  case Nil
  then show ?case by (simp add: reach_def)
next
  case (Cons n ns)
  from Cons.prems(1) obtain nbs acc1 where
    nbs: "G_adj G n = Inr nbs" and
    inner: "neighbours_loop G nbs acc = Inr acc1" and
    rest: "nodes_loop G ns acc1 = Inr acc'"
    by (auto split: sum.splits)
  from neighbours_loop_pairs [OF inner Cons.prems(2)] have
    len1: "length (fst acc1) = length (snd acc1)" and
    set1: "set (zip (fst acc1) (snd acc1)) =
      set (zip (fst acc) (snd acc)) \<union> {(m, v). m \<in> set nbs \<and> G_map_val G m = Inr v}"
    by simp_all
  have "reach G (n # ns) = {(m, v). m \<in> set nbs \<and> G_map_val G m = Inr v} \<union> reach G ns"
    using nbs by (auto simp: reach_def has_edge_G_adj)
  with Cons.IH [OF rest len1] set1 show ?case by auto
qed

lemma neighbourhood_set:
  assumes "get_neighbours_and_vals G nodes = Inr d"
  shows "set d = reach G (seeds_list nodes)"
proof -
  from assms obtain ks vs where
    loop: "nodes_loop G (seeds_list nodes) ([], []) = Inr (ks, vs)" and d: "d = dict_zip ks vs"
    by (auto simp: get_neighbours_and_vals_def split: sum.splits)
  from nodes_loop_pairs [OF loop] have pairs: "set (zip ks vs) = reach G (seeds_list nodes)"
    by simp
  then have "\<forall>p\<in>set [] \<union> set (zip ks vs). projr (G_map_val G (fst p)) = snd p"
    by (auto simp: reach_def)
  then have "set (fold (\<lambda>(k, v). dict_setitem k v) (zip ks vs) []) = set [] \<union> set (zip ks vs)"
    by (rule set_fold_setitem_fun)
  with pairs d show ?thesis by (simp add: dict_zip_def)
qed

section \<open>Neighbourhoods without a present value\<close>

lemma get_multi_cases:
  "get_multi_neighbours_and_vals G nodes k =
     (if 1 \<le> k then get_neighbours_and_vals G nodes else Inr [])"
proof (cases "1 \<le> k")
  case True
  then obtain i where "nat k = Suc i" by (cases "nat k") auto
  with True show ?thesis
    unfolding get_multi_neighbours_and_vals_def by (simp only: multi_loop_Suc if_True)
next
  case False
  then have "nat k = 0" by simp
  with False show ?thesis by (simp add: get_multi_neighbours_and_vals_def)
qed

lemma G_adj_Inr_ex: "(\<exists>nbs. G_adj G n = Inr nbs) \<longleftrightarrow> n \<in> set (G_nodes G)"
  by (cases "map_of G n") (auto simp: G_adj_def in_G_nodes)

lemma get_neighbours_and_vals_Inr_iff:
  "(\<exists>d. get_neighbours_and_vals G nodes = Inr d) \<longleftrightarrow>
   (\<forall>n\<in>set (seeds_list nodes).
      n \<in> set (G_nodes G) \<and> (\<forall>m. has_edge G n m \<longrightarrow> (\<exists>v. G_map_val G m = Inr v)))"
proof -
  have "(\<exists>d. get_neighbours_and_vals G nodes = Inr d) \<longleftrightarrow>
      (\<exists>acc'. nodes_loop G (seeds_list nodes) ([], []) = Inr acc')"
    by (cases "nodes_loop G (seeds_list nodes) ([], [])")
       (auto simp: get_neighbours_and_vals_def split: prod.splits)
  also have "\<dots> \<longleftrightarrow> (\<forall>n\<in>set (seeds_list nodes).
       \<exists>nbs. G_adj G n = Inr nbs \<and> (\<forall>nb\<in>set nbs. \<exists>v. G_map_val G nb = Inr v))"
    by (rule nodes_loop_Inr)
  also have "\<dots> \<longleftrightarrow> (\<forall>n\<in>set (seeds_list nodes).
      n \<in> set (G_nodes G) \<and> (\<forall>m. has_edge G n m \<longrightarrow> (\<exists>v. G_map_val G m = Inr v)))"
    unfolding has_edge_G_adj G_adj_Inr_ex [symmetric] by (intro ball_cong refl) auto
  finally show ?thesis .
qed

lemma reach_nx_copy: "nx_wf G \<Longrightarrow> reach (nx_copy G) ns = reach G ns"
  by (simp add: reach_def has_edge_nx_copy G_map_val_nx_copy)

lemma neighbours_nx_copy:
  assumes "nx_wf G" and "get_neighbours_and_vals G nodes = Inr d"
  shows "\<exists>d'. get_neighbours_and_vals (nx_copy G) nodes = Inr d' \<and> set d' = set d"
proof -
  from assms(2) have "\<exists>d. get_neighbours_and_vals G nodes = Inr d" by blast
  then have "\<exists>d'. get_neighbours_and_vals (nx_copy G) nodes = Inr d'"
    unfolding get_neighbours_and_vals_Inr_iff
    using assms(1) by (simp add: G_nodes_nx_copy has_edge_nx_copy G_map_val_nx_copy)
  then obtain d' where d': "get_neighbours_and_vals (nx_copy G) nodes = Inr d'" by blast
  from neighbourhood_set [OF d'] neighbourhood_set [OF assms(2)] assms(1)
  have "set d' = set d" by (simp add: reach_nx_copy)
  with d' show ?thesis by blast
qed

lemma multi_nx_copy:
  assumes "nx_wf G" and "get_multi_neighbours_and_vals G nodes k = Inr d"
  shows "\<exists>d'. get_multi_neighbours_and_vals (nx_copy G) nodes k = Inr d' \<and> set d' = set d"
proof (cases "1 \<le> k")
  case True
  with assms(2) have "get_neighbours_and_vals G nodes = Inr d" by (simp add: get_multi_cases)
  from neighbours_nx_copy [OF assms(1) this] True show ?thesis by (simp add: get_multi_cases)
next
  case False
  with assms(2) show ?thesis by (simp add: get_multi_cases)
qed

lemma present_vals_all_nan: "\<forall>v\<in>set vs. v = NaN \<Longrightarrow> present_vals vs = []"
  by (induction vs) auto

lemma nanmean_all_nan: "\<forall>v\<in>set vs. v = NaN \<Longrightarrow> nanmean vs = NaN"
  by (simp add: nanmean_def present_vals_all_nan)

lemma float_lt_nan: "\<not> float_lt r NaN"
  by (cases r) simp_all

lemma G_map_val_batch_pass:
  "n \<in> set targets \<Longrightarrow> n \<in> set (G_nodes S) \<Longrightarrow>
   G_map_val (batch_pass S targets k) n = Inr (neighbourhood_mean S k n)"
  by (cases "map_of S n") (auto simp: G_map_val_def map_of_batch_pass in_G_nodes)

lemma G_map_val_batch_pass_other:
  "n \<notin> set targets \<Longrightarrow> G_map_val (batch_pass S targets k) n = G_map_val S n"
  by (cases "map_of S n") (auto simp: G_map_val_def map_of_batch_pass)

lemma has_edge_batch_pass: "has_edge (batch_pass S targets k) x y = has_edge S x y"
  by (cases "map_of S x") (auto simp: has_edge_def map_of_batch_pass)

lemma smooth_graph_once:
  assumes "kernel_loop (nx_copy (graphs h G)) k targets [] = Inr cmd"
  shows "smooth_graph h G (PyList targets) 1 k =
    (Inr (next_free h),
     h\<lparr>graphs := (graphs h)(next_free h := batch_pass (nx_copy (graphs h G)) targets k),
       next_free := Suc (next_free h)\<rparr>)"
proof -
  have "set_node_attributes (nx_copy (graphs h G)) cmd = batch_pass (nx_copy (graphs h G)) targets k"
    using distinct_G_nodes_nx_copy assms by (rule pass_is_batch)
  with assms show ?thesis
    by (simp add: smooth_graph_def G_copy_def)
qed

text \<open>
  C3. A gradient ascent step over nodes that all have a value and a non-empty
  neighbourhood returns a list of the same length and keeps in place every node whose
  neighbourhood holds only missing values. One smoothing pass over targets whose
  neighbourhood queries succeed returns a new graph, and in it every target node of the
  graph whose neighbourhood is empty or holds only missing values has a missing value:
  the mean of no number is not-a-number, not an exception.
\<close>

theorem empty_neighbourhood:
  "(nodes \<noteq> [] \<and>
    (\<forall>n\<in>set nodes. (\<exists>r. G_map_val G n = Inr r) \<and>
       (\<exists>d. get_multi_neighbours_and_vals G (SeedNodes [n]) k = Inr d \<and> d \<noteq> []))
    \<longrightarrow> (\<exists>new. nodes_gradient_step G nodes k = Inr new \<and> length new = length nodes \<and>
          (\<forall>i<length nodes. \<forall>d.
             get_multi_neighbours_and_vals G (SeedNodes [nodes ! i]) k = Inr d \<and>
             (\<forall>v\<in>snd ` set d. v = NaN) \<longrightarrow> new ! i = nodes ! i))) \<and>
   (nx_wf (graphs h g) \<and>
    (\<forall>m\<in>set targets. \<exists>d. get_multi_neighbours_and_vals (graphs h g) (SeedNodes [m]) k = Inr d)
    \<longrightarrow> (\<exists>h'. smooth_graph h g (PyList targets) 1 k = (Inr (next_free h), h') \<and>
          (\<forall>n\<in>set targets. \<forall>d.
             n \<in> set (G_nodes (graphs h g)) \<and>
             get_multi_neighbours_and_vals (graphs h g) (SeedNodes [n]) k = Inr d \<and>
             (\<forall>v\<in>snd ` set d. v = NaN) \<longrightarrow>
             G_map_val (graphs h' (next_free h)) n = Inr NaN)))"
proof (intro conjI impI)
  assume a: "nodes \<noteq> [] \<and>
    (\<forall>n\<in>set nodes. (\<exists>r. G_map_val G n = Inr r) \<and>
       (\<exists>d. get_multi_neighbours_and_vals G (SeedNodes [n]) k = Inr d \<and> d \<noteq> []))"
  let ?vals = "map (\<lambda>n. projr (G_map_val G n)) nodes"
  let ?f = "\<lambda>p. let mi = projr (max_neighbour G (fst p) k)
                 in if float_lt (snd p) (snd mi) then fst mi else fst p"
  from a have "get_node_attributes_as_list G nodes = Inr ?vals"
    using attributes_loop_Inr [of nodes G "[]"] by (simp add: get_node_attributes_as_list_def)
  moreover have "\<forall>p\<in>set (zip nodes ?vals). \<exists>mi. max_neighbour G (fst p) k = Inr mi"
  proof
    fix p
    assume "p \<in> set (zip nodes ?vals)"
    then have "(fst p, snd p) \<in> set (zip nodes ?vals)" by simp
    then have "fst p \<in> set nodes" by (rule set_zip_leftD)
    with a obtain d where
      d: "get_multi_neighbours_and_vals G (SeedNodes [fst p]) k = Inr d" "d \<noteq> []" by blast
    then show "\<exists>mi. max_neighbour G (fst p) k = Inr mi"
      using max_neighbour_scan [OF d(1)] by (cases d) auto
  qed
  then have "step_loop G k (zip nodes ?vals) [] = Inr ([] @ map ?f (zip nodes ?vals))"
    by (rule step_loop_Inr)
  ultimately have new: "nodes_gradient_step G nodes k = Inr (map ?f (zip nodes ?vals))"
    by (simp add: nodes_gradient_step_def)
  have stay: "map ?f (zip nodes ?vals) ! i = nodes ! i"
    if i: "i < length nodes"
      and d: "get_multi_neighbours_and_vals G (SeedNodes [nodes ! i]) k = Inr d"
      and nan: "\<forall>v\<in>snd ` set d. v = NaN" for i d
  proof -
    from a i obtain d' where
      "get_multi_neighbours_and_vals G (SeedNodes [nodes ! i]) k = Inr d'" "d' \<noteq> []"
      by (meson nth_mem)
    with d have "d \<noteq> []" by simp
    from max_neighbour_all_nan [OF d this nan] obtain m where
      "max_neighbour G (nodes ! i) k = Inr (m, NaN)" by blast
    with i show ?thesis by (simp add: float_lt_nan)
  qed
  show "\<exists>new. nodes_gradient_step G nodes k = Inr new \<and> length new = length nodes \<and>
          (\<forall>i<length nodes. \<forall>d.
             get_multi_neighbours_and_vals G (SeedNodes [nodes ! i]) k = Inr d \<and>
             (\<forall>v\<in>snd ` set d. v = NaN) \<longrightarrow> new ! i = nodes ! i)"
    using new stay by (intro exI [of _ "map ?f (zip nodes ?vals)"]) simp
next
  assume b: "nx_wf (graphs h g) \<and>
    (\<forall>m\<in>set targets. \<exists>d. get_multi_neighbours_and_vals (graphs h g) (SeedNodes [m]) k = Inr d)"
  let ?S = "nx_copy (graphs h g)"
  let ?h' = "h\<lparr>graphs := (graphs h)(next_free h := batch_pass ?S targets k),
       next_free := Suc (next_free h)\<rparr>"
  from b have wf: "nx_wf (graphs h g)" by simp
  have "\<forall>m\<in>set targets. \<exists>out. get_multi_neighbours_and_vals ?S (SeedNodes [m]) k = Inr out"
  proof
    fix m
    assume "m \<in> set targets"
    with b obtain d where "get_multi_neighbours_and_vals (graphs h g) (SeedNodes [m]) k = Inr d"
      by blast
    from multi_nx_copy [OF wf this]
    show "\<exists>out. get_multi_neighbours_and_vals ?S (SeedNodes [m]) k = Inr out" by blast
  qed
  then obtain cmd where "kernel_loop ?S k targets [] = Inr cmd"
    using kernel_loop_total [of targets ?S k "[]"] by blast
  then have run: "smooth_graph h g (PyList targets) 1 k = (Inr (next_free h), ?h')"
    by (rule smooth_graph_once)
  have missing: "G_map_val (graphs ?h' (next_free h)) n = Inr NaN"
    if n: "n \<in> set targets" "n \<in> set (G_nodes (graphs h g))"
      and d: "get_multi_neighbours_and_vals (graphs h g) (SeedNodes [n]) k = Inr d"
      and nan: "\<forall>v\<in>snd ` set d. v = NaN" for n d
  proof -
    from multi_nx_copy [OF wf d] obtain d' where
      d': "get_multi_neighbours_and_vals ?S (SeedNodes [n]) k = Inr d'" "set d' = set d"
      by blast
    with nan have "nanmean (map snd d') = NaN" by (intro nanmean_all_nan) simp
    with d' have "neighbourhood_mean ?S k n = NaN" by (simp add: neighbourhood_mean_def)
    moreover from n wf have "n \<in> set (G_nodes ?S)" by (simp add: G_nodes_nx_copy)
    ultimately show ?thesis using n(1) by (simp add: G_map_val_batch_pass)
  qed
  show "\<exists>h'. smooth_graph h g (PyList targets) 1 k = (Inr (next_free h), h') \<and>
          (\<forall>n\<in>set targets. \<forall>d.
             n \<in> set (G_nodes (graphs h g)) \<and>
             get_multi_neighbours_and_vals (graphs h g) (SeedNodes [n]) k = Inr d \<and>
             (\<forall>v\<in>snd ` set d. v = NaN) \<longrightarrow>
             G_map_val (graphs h' (next_free h)) n = Inr NaN)"
    using run missing by (intro exI [of _ ?h']) blast
qed

lemma nan_neighbour_multi:
  "get_multi_neighbours_and_vals nan_neighbour_graph (SeedNodes [0]) 1 = Inr [(1, NaN)]"
  by (simp add: get_multi_cases get_neighbours_and_vals_def G_adj_def G_map_val_def
      dict_zip_def dict_setitem_def nan_neighbour_graph_def)

theorem empty_neighbourhood_witness:
  "nodes_gradient_step nan_neighbour_graph [0] 1 = Inr [0] \<and>
   (\<exists>h'. smooth_graph nan_neighbour_heap 1 (PyList [0]) 1 1 = (Inr 2, h') \<and>
      G_map_val (graphs h' 2) 0 = Inr NaN)"
proof -
  note t = empty_neighbourhood [of "[0]" nan_neighbour_graph 1 nan_neighbour_heap 1 "[0]"]
  have v: "G_map_val nan_neighbour_graph 0 = Inr (Num 1)"
    by (simp add: G_map_val_def nan_neighbour_graph_def)
  have wf: "nx_wf (graphs nan_neighbour_heap 1)"
    by (simp add: nx_wf_def nan_neighbour_heap_def nan_neighbour_graph_def G_nodes_def
        has_edge_def)
  have g: "graphs nan_neighbour_heap 1 = nan_neighbour_graph" "next_free nan_neighbour_heap = 2"
    by (simp_all add: nan_neighbour_heap_def)
  have n: "0 \<in> set (G_nodes nan_neighbour_graph)"
    by (simp add: G_nodes_def nan_neighbour_graph_def)
  from t v nan_neighbour_multi obtain new where
    new: "nodes_gradient_step nan_neighbour_graph [0] 1 = Inr new" "length new = 1" "new ! 0 = 0"
    by auto
  then have "new = [0]" by (cases new) auto
  with new have a: "nodes_gradient_step nan_neighbour_graph [0] 1 = Inr [0]" by simp
  from t wf g n nan_neighbour_multi have
    b: "\<exists>h'. smooth_graph nan_neighbour_heap 1 (PyList [0]) 1 1 = (Inr 2, h') \<and>
      G_map_val (graphs h' 2) 0 = Inr NaN"
    by auto
  from a b show ?thesis by simp
qed

text \<open>
  On a neighbourhood that is empty the ascent does raise: \<^verbatim>\<open>max\<close> of an empty dictionary
  is a \<^verbatim>\<open>ValueError\<close>, here at a node without edges and, in the example graph, with
  radius 0.
\<close>

theorem ascent_raises_on_empty:
  "get_multi_neighbours_and_vals isolated_graph (SeedNodes [0]) 1 = Inr [] \<and>
   max_neighbour isolated_graph 0 1 = Inl ValueError \<and>
   nodes_gradient_step isolated_graph [0] 1 = Inl ValueError \<and>
   max_neighbour example_graph 0 0 = Inl ValueError"
proof -
  have z: "max_neighbour example_graph 0 0 = Inl ValueError"
    by (simp add: max_neighbour_def get_multi_cases py_max_def)
  have m: "get_multi_neighbours_and_vals isolated_graph (SeedNodes [0]) 1 = Inr []"
    by (simp add: get_multi_cases get_neighbours_and_vals_def G_adj_def dict_zip_def
        isolated_graph_def)
  then have x: "max_neighbour isolated_graph 0 1 = Inl ValueError"
    by (simp add: max_neighbour_def py_max_def)
  have "get_node_attributes_as_list isolated_graph [0] = Inr [Num 1]"
    by (simp add: get_node_attributes_as_list_def G_map_val_def isolated_graph_def)
  with x have "nodes_gradient_step isolated_graph [0] 1 = Inl ValueError"
    by (simp add: nodes_gradient_step_def)
  with m x z show ?thesis by simp
qed

section \<open>Smoothing on a copy\<close>

lemma smooth_graph_targets:
  "smooth_graph h g nodes n_its k =
     (case its_loop (next_free h) (targets_of h g nodes) k (nat n_its)
             (h\<lparr>graphs := (graphs h)(next_free h := nx_copy (graphs h g)),
                next_free := Suc (next_free h)\<rparr>) of
        (Some e, h2) \<Rightarrow> (Inl e, h2)
      | (None, h2) \<Rightarrow> (Inr (next_free h), h2))"
  by (cases nodes) (simp_all add: smooth_graph_def G_copy_def)

lemma smooth_graph_result:
  assumes "smooth_graph h g nodes n_its k = (r, h')"
  shows "lists h' = lists h \<and> next_free h' = Suc (next_free h) \<and>
    (\<forall>a. a \<noteq> next_free h \<longrightarrow> graphs h' a = graphs h a) \<and>
    (\<forall>g'. r = Inr g' \<longrightarrow> g' = next_free h \<and>
       graphs h' g' =
         ((\<lambda>S. batch_pass S (targets_of h g nodes) k) ^^ nat n_its) (nx_copy (graphs h g)))"
proof -
  let ?h1 = "h\<lparr>graphs := (graphs h)(next_free h := nx_copy (graphs h g)),
                next_free := Suc (next_free h)\<rparr>"
  obtain e h2 where loop: "its_loop (next_free h) (targets_of h g nodes) k (nat n_its) ?h1 = (e, h2)"
    by (cases "its_loop (next_free h) (targets_of h g nodes) k (nat n_its) ?h1")
  from its_loop_frame [OF loop] have
    frame: "lists h2 = lists h" "next_free h2 = Suc (next_free h)"
      "\<forall>a. a \<noteq> next_free h \<longrightarrow> graphs h2 a = graphs h a"
    by simp_all
  show ?thesis
  proof (cases e)
    case None
    have "distinct (G_nodes (graphs ?h1 (next_free h)))" by (simp add: distinct_G_nodes_nx_copy)
    from its_loop_batch [OF this] loop None have
      "graphs h2 (next_free h) =
        ((\<lambda>S. batch_pass S (targets_of h g nodes) k) ^^ nat n_its) (nx_copy (graphs h g))"
      by simp
    moreover from assms loop None have "r = Inr (next_free h)" "h' = h2"
      by (simp_all add: smooth_graph_targets)
    ultimately show ?thesis using frame by simp
  next
    case (Some err)
    with assms loop have "r = Inl err" "h' = h2" by (simp_all add: smooth_graph_targets)
    with frame show ?thesis by simp
  qed
qed

text \<open>
  C7. A call of \<open>smooth_graph\<close> writes to one graph object only, the copy it makes at
  a new address: the lists and every graph object that was there at entry, the input
  graph among them, are as before, also when the call raises. When it returns, the
  graph at the new address is the copy after \<open>n_its\<close> batch passes, each of which gives
  every target node the mean of its neighbourhood in the graph that the pass before
  left (\<open>batch_pass\<close>, which the loop with its staging dictionary equals by
  \<open>pass_is_batch\<close>). The copy of a well-formed graph has the nodes in the same order,
  the same values and the same edges.
\<close>

theorem smooth_graph_batch:
  "smooth_graph h g nodes n_its k = (r, h') \<Longrightarrow>
   lists h' = lists h \<and>
   (\<forall>a. a \<noteq> next_free h \<longrightarrow> graphs h' a = graphs h a) \<and>
   (\<forall>g'. r = Inr g' \<longrightarrow> g' = next_free h \<and>
      graphs h' g' =
        ((\<lambda>S. batch_pass S (targets_of h g nodes) k) ^^ nat n_its) (nx_copy (graphs h g))) \<and>
   (nx_wf (graphs h g) \<longrightarrow>
      G_nodes (nx_copy (graphs h g)) = G_nodes (graphs h g) \<and>
      (\<forall>n. G_map_val (nx_copy (graphs h g)) n = G_map_val (graphs h g) n) \<and>
      (\<forall>u v. has_edge (nx_copy (graphs h g)) u v = has_edge (graphs h g) u v))"
proof -
  assume run: "smooth_graph h g nodes n_its k = (r, h')"
  note res = smooth_graph_result [OF run]
  have copy: "nx_wf (graphs h g) \<longrightarrow>
      G_nodes (nx_copy (graphs h g)) = G_nodes (graphs h g) \<and>
      (\<forall>n. G_map_val (nx_copy (graphs h g)) n = G_map_val (graphs h g) n) \<and>
      (\<forall>u v. has_edge (nx_copy (graphs h g)) u v = has_edge (graphs h g) u v)"
    by (simp add: G_nodes_nx_copy G_map_val_nx_copy has_edge_nx_copy)
  from res have a: "lists h' = lists h" by (rule conjunct1)
  from res have b: "\<forall>a. a \<noteq> next_free h \<longrightarrow> graphs h' a = graphs h a"
    by (elim conjE)
  from res have c: "\<forall>g'. r = Inr g' \<longrightarrow> g' = next_free h \<and>
      graphs h' g' =
        ((\<lambda>S. batch_pass S (targets_of h g nodes) k) ^^ nat n_its) (nx_copy (graphs h g))"
    by (elim conjE)
  from a b c copy show ?thesis by (intro conjI)
qed

lemma example_copy: "nx_copy example_graph = example_graph"
  by code_simp

lemma example_pass:
  "batch_pass example_graph [0, 1, 2, 3] 1 =
     [(0, Some (Num 4), [1, 2]), (1, Some (Num 2), [0, 2, 3]),
      (2, Some (Num 3), [0, 1, 3]), (3, Some (Num 4), [1, 2])]"
  by code_simp

theorem smooth_graph_batch_witness:
  "fst (smooth_graph example_heap 1 PyNone 1 1) = Inr 2 \<and>
   graphs (snd (smooth_graph example_heap 1 PyNone 1 1)) 1 = example_graph \<and>
   graphs (snd (smooth_graph example_heap 1 PyNone 1 1)) 2 =
     [(0, Some (Num 4), [1, 2]), (1, Some (Num 2), [0, 2, 3]),
      (2, Some (Num 3), [0, 1, 3]), (3, Some (Num 4), [1, 2])]"
proof -
  let ?run = "smooth_graph example_heap 1 PyNone 1 1"
  have r: "fst ?run = Inr 2" by code_simp
  have g: "graphs example_heap 1 = example_graph" by code_simp
  have f: "next_free example_heap = 2" by code_simp
  have t: "targets_of example_heap 1 PyNone = [0, 1, 2, 3]" by code_simp
  have one: "nat 1 = Suc 0" by simp
  have "?run = (fst ?run, snd ?run)" by simp
  note res = smooth_graph_batch [OF this, unfolded f g t one funpow.simps o_def id_def]
  from res have a: "graphs (snd ?run) 1 = example_graph"
    using g by simp
  from res r have "graphs (snd ?run) 2 = batch_pass (nx_copy example_graph) [0, 1, 2, 3] 1"
    by simp
  then have b: "graphs (snd ?run) 2 =
     [(0, Some (Num 4), [1, 2]), (1, Some (Num 2), [0, 2, 3]),
      (2, Some (Num 3), [0, 1, 3]), (3, Some (Num 4), [1, 2])]"
    by (simp only: example_copy example_pass)
  from r a b show ?thesis by (intro conjI)
qed

section \<open>The nodes argument of smoothing\<close>

lemma its_loop_no_targets: "its_loop gs [] k i h = (None, h)"
  by (induction i) (simp_all add: set_node_attributes_def)

lemma funpow_batch_pass_other:
  "n \<notin> set targets \<Longrightarrow>
   G_map_val (((\<lambda>S. batch_pass S targets k) ^^ i) S) n = G_map_val S n"
  by (induction i) (simp_all add: G_map_val_batch_pass_other)

text \<open>
  C10. The test \<^verbatim>\<open>isinstance(nodes, list)\<close> decides the targets: with \<^verbatim>\<open>None\<close>, a tuple, a
  set or an array the call is the call with the list of all nodes of the graph, whatever
  the argument holds; with the empty list no node is smoothed and the result is the
  copy; with a list, a node that is not in the list keeps the value it has in the copy.
\<close>

theorem smooth_graph_nodes_argument:
  "smooth_graph h g PyNone n_its k = smooth_graph h g (PyList (G_nodes (graphs h g))) n_its k \<and>
   smooth_graph h g (PyTuple xs) n_its k = smooth_graph h g (PyList (G_nodes (graphs h g))) n_its k \<and>
   smooth_graph h g (PySet s) n_its k = smooth_graph h g (PyList (G_nodes (graphs h g))) n_its k \<and>
   smooth_graph h g (NdArray xs) n_its k = smooth_graph h g (PyList (G_nodes (graphs h g))) n_its k \<and>
   smooth_graph h g (PyList []) n_its k =
     (Inr (next_free h),
      h\<lparr>graphs := (graphs h)(next_free h := nx_copy (graphs h g)),
        next_free := Suc (next_free h)\<rparr>) \<and>
   (\<forall>ns g' h' n. smooth_graph h g (PyList ns) n_its k = (Inr g', h') \<and> n \<notin> set ns \<longrightarrow>
      G_map_val (graphs h' g') n = G_map_val (nx_copy (graphs h g)) n)"
proof -
  have other: "G_map_val (graphs h' g') n = G_map_val (nx_copy (graphs h g)) n"
    if run: "smooth_graph h g (PyList ns) n_its k = (Inr g', h')" and n: "n \<notin> set ns"
    for ns g' h' n
  proof -
    from smooth_graph_result [OF run] have
      "graphs h' g' = ((\<lambda>S. batch_pass S ns k) ^^ nat n_its) (nx_copy (graphs h g))"
      by auto
    with n show ?thesis by (simp add: funpow_batch_pass_other)
  qed
  have empty: "smooth_graph h g (PyList []) n_its k =
     (Inr (next_free h),
      h\<lparr>graphs := (graphs h)(next_free h := nx_copy (graphs h g)),
        next_free := Suc (next_free h)\<rparr>)"
    by (simp add: smooth_graph_targets its_loop_no_targets)
  show ?thesis
    using empty other by (simp add: smooth_graph_targets) blast
qed

theorem smooth_graph_nodes_argument_witness:
  "fst (smooth_graph example_heap 1 (PyList [0]) 1 1) = Inr 2 \<and>
   G_map_val (graphs (snd (smooth_graph example_heap 1 (PyList [0]) 1 1)) 2) 1 = Inr (Num 5) \<and>
   G_map_val (graphs (snd (smooth_graph example_heap 1 (PyList [0]) 1 1)) 2) 0 = Inr (Num 4)"
proof -
  let ?run = "smooth_graph example_heap 1 (PyList [0]) 1 1"
  have r: "fst ?run = Inr 2" by code_simp
  have z: "G_map_val (graphs (snd ?run) 2) 0 = Inr (Num 4)" by code_simp
  have c: "G_map_val (nx_copy (graphs example_heap 1)) 1 = Inr (Num 5)" by code_simp
  from r have "?run = (Inr 2, snd ?run)" by (metis prod.collapse)
  moreover have "(1::nat) \<notin> set [0]" by simp
  ultimately have "G_map_val (graphs (snd ?run) 2) 1 = G_map_val (nx_copy (graphs example_heap 1)) 1"
    using smooth_graph_nodes_argument [of example_heap 1 1 1] by blast
  with r z c show ?thesis by simp
qed

section \<open>What the operations write\<close>

lemma expand_loop_frame:
  "expand_loop G nodes ign i h = (r, h') \<Longrightarrow>
   graphs h' = graphs h \<and> next_free h' = next_free h \<and>
   (\<forall>a. a \<noteq> nodes \<longrightarrow> lists h' a = lists h a) \<and>
   (\<exists>added. lists h' nodes = lists h nodes @ added)"
proof (induction i arbitrary: h)
  case 0
  then show ?case by simp
next
  case (Suc i)
  show ?case
  proof (cases "get_neighbours_and_vals (graphs h G) (SeedNodes (lists h nodes))")
    case (Inl e)
    with Suc.prems show ?thesis by simp
  next
    case (Inr neighbours)
    let ?keys = "if ign then map fst (filter (\<lambda>(k, v). \<not> isnan v) neighbours)
                       else map fst neighbours"
    from Suc.prems Inr have
      "expand_loop G nodes ign i (h\<lparr>lists := (lists h)(nodes := lists h nodes @ ?keys)\<rparr>) = (r, h')"
      by (simp add: Let_def)
    from Suc.IH [OF this] show ?thesis by auto
  qed
qed

lemma expand_nodes_one:
  assumes "get_neighbours_and_vals (graphs h G) (SeedNodes (lists h nodes)) = Inr d"
  shows "expand_nodes h G nodes 1 False =
    (Inr (nodes, set (map fst d) - set (lists h nodes)),
     h\<lparr>lists := (lists h)(nodes := lists h nodes @ map fst d)\<rparr>)"
  using assms by (auto simp: expand_nodes_def)

lemma expand_nodes_frame:
  assumes "expand_nodes h G nodes stepsize ign = (r, h')"
  shows "graphs h' = graphs h \<and>
    (\<forall>a. a \<noteq> nodes \<longrightarrow> lists h' a = lists h a) \<and>
    (\<exists>added. lists h' nodes = lists h nodes @ added) \<and>
    (\<forall>res new. r = Inr (res, new) \<longrightarrow>
       res = nodes \<and> new = set (lists h' nodes) - set (lists h nodes))"
proof -
  obtain e h2 where loop: "expand_loop G nodes ign (nat stepsize) h = (e, h2)"
    by (cases "expand_loop G nodes ign (nat stepsize) h")
  with assms have h': "h' = h2"
    and r: "r = (case e of Some err \<Rightarrow> Inl err
                 | None \<Rightarrow> Inr (nodes, set (lists h2 nodes) - set (lists h nodes)))"
    by (auto simp: expand_nodes_def split: option.splits)
  from expand_loop_frame [OF loop] h' r show ?thesis
    by (cases e) auto
qed

lemma add_map_to_surface_frame:
  assumes "add_map_to_surface h G idx map_data = (r, h')"
  shows "lists h' = lists h \<and>
    (\<forall>a. a \<noteq> G \<longrightarrow> graphs h' a = graphs h a) \<and>
    (\<forall>g'. r = Inr g' \<longrightarrow> g' = G \<and>
       graphs h' G =
         set_node_attributes (graphs h G)
           (dict_zip (G_nodes (graphs h G)) (map (nth map_data) idx)))"
  using assms
  by (cases "list_all (\<lambda>i. i < length map_data) idx")
     (auto simp: add_map_to_surface_def np_take_def)

text \<open>
  C8. The operations of the Neighbourhood Engine, of Gradient Ascent and the Region
  Operations other than \<open>expand_nodes\<close> contain no assignment to an object they are
  given: they are functions of the graph value and of the list values. The three
  operations that do write are modelled on the store. \<open>expand_nodes\<close> leaves every
  graph and every other list as it was, extends the list object it was given (the old
  contents stay as a prefix, also when a later step raises) and returns that same
  object; with one step and no filtering the extension is the keys of the neighbourhood
  of the list. \<open>add_map_to_surface\<close> writes to the graph object it was given, and to
  nothing else, and returns it. \<open>smooth_graph\<close> writes to no list and to no graph
  object that was there at entry.
\<close>

theorem mutation_frame:
  "(expand_nodes h G nodes stepsize ign = (r, h') \<longrightarrow>
      graphs h' = graphs h \<and>
      (\<forall>a. a \<noteq> nodes \<longrightarrow> lists h' a = lists h a) \<and>
      (\<exists>added. lists h' nodes = lists h nodes @ added) \<and>
      (\<forall>res new. r = Inr (res, new) \<longrightarrow>
         res = nodes \<and> new = set (lists h' nodes) - set (lists h nodes))) \<and>
   (get_neighbours_and_vals (graphs h G) (SeedNodes (lists h nodes)) = Inr d \<longrightarrow>
      expand_nodes h G nodes 1 False =
        (Inr (nodes, set (map fst d) - set (lists h nodes)),
         h\<lparr>lists := (lists h)(nodes := lists h nodes @ map fst d)\<rparr>)) \<and>
   (add_map_to_surface h G idx map_data = (r2, h2) \<longrightarrow>
      lists h2 = lists h \<and>
      (\<forall>a. a \<noteq> G \<longrightarrow> graphs h2 a = graphs h a) \<and>
      (\<forall>g'. r2 = Inr g' \<longrightarrow> g' = G \<and>
         graphs h2 G =
           set_node_attributes (graphs h G)
             (dict_zip (G_nodes (graphs h G)) (map (nth map_data) idx)))) \<and>
   (smooth_graph h G arg n_its k = (r3, h3) \<longrightarrow>
      lists h3 = lists h \<and> (\<forall>a. a \<noteq> next_free h \<longrightarrow> graphs h3 a = graphs h a))"
proof (intro conjI impI)
  assume "expand_nodes h G nodes stepsize ign = (r, h')"
  from expand_nodes_frame [OF this] show
    "graphs h' = graphs h"
    "\<forall>a. a \<noteq> nodes \<longrightarrow> lists h' a = lists h a"
    "\<exists>added. lists h' nodes = lists h nodes @ added"
    "\<forall>res new. r = Inr (res, new) \<longrightarrow>
         res = nodes \<and> new = set (lists h' nodes) - set (lists h nodes)"
    by blast+
next
  assume "get_neighbours_and_vals (graphs h G) (SeedNodes (lists h nodes)) = Inr d"
  then show "expand_nodes h G nodes 1 False =
        (Inr (nodes, set (map fst d) - set (lists h nodes)),
         h\<lparr>lists := (lists h)(nodes := lists h nodes @ map fst d)\<rparr>)"
    by (rule expand_nodes_one)
next
  assume "add_map_to_surface h G idx map_data = (r2, h2)"
  from add_map_to_surface_frame [OF this] show
    "lists h2 = lists h"
    "\<forall>a. a \<noteq> G \<longrightarrow> graphs h2 a = graphs h a"
    "\<forall>g'. r2 = Inr g' \<longrightarrow> g' = G \<and>
         graphs h2 G =
           set_node_attributes (graphs h G)
             (dict_zip (G_nodes (graphs h G)) (map (nth map_data) idx))"
    by blast+
next
  assume "smooth_graph h G arg n_its k = (r3, h3)"
  from smooth_graph_result [OF this] show
    "lists h3 = lists h" "\<forall>a. a \<noteq> next_free h \<longrightarrow> graphs h3 a = graphs h a"
    by blast+
qed

text \<open>
  A call with one step on the list object \<open>[0]\<close>: after it the object holds
  \<open>[0, 1, 2]\<close>.
\<close>

theorem expand_nodes_extends_argument:
  "lists example_heap 0 = [0] \<and>
   fst (expand_nodes example_heap 1 0 1 False) = Inr (0, {1, 2}) \<and>
   lists (snd (expand_nodes example_heap 1 0 1 False)) 0 = [0, 1, 2]"
proof -
  have a: "lists example_heap 0 = [0]" by code_simp
  have n: "get_neighbours_and_vals (graphs example_heap 1) (SeedNodes (lists example_heap 0)) =
      Inr [(1, Num 5), (2, Num 3)]"
    by code_simp
  have "expand_nodes example_heap 1 0 1 False =
    (Inr (0, set (map fst [(1, Num 5), (2, Num 3)]) - set (lists example_heap 0)),
     example_heap\<lparr>lists := (lists example_heap)
        (0 := lists example_heap 0 @ map fst [(1, Num 5), (2, Num 3)])\<rparr>)"
    using n by (rule expand_nodes_one)
  with a show ?thesis by auto
qed

theorem mutation_frame_witness:
  "graphs (snd (expand_nodes example_heap 1 0 2 True)) = graphs example_heap \<and>
   fst (expand_nodes example_heap 1 0 1 False) = Inr (0, {1, 2}) \<and>
   lists (snd (expand_nodes example_heap 1 0 1 False)) 0 = [0, 1, 2] \<and>
   lists (snd (add_map_to_surface example_heap 1 [0, 1, 2, 3] [Num 2, Num 2, Num 2, Num 2])) =
     lists example_heap \<and>
   fst (add_map_to_surface example_heap 1 [0, 1, 2, 3] [Num 2, Num 2, Num 2, Num 2]) = Inr 1 \<and>
   lists (snd (smooth_graph example_heap 1 PyNone 1 1)) = lists example_heap \<and>
   graphs (snd (smooth_graph example_heap 1 PyNone 1 1)) 1 = example_graph"
proof -
  let ?e2 = "expand_nodes example_heap 1 0 2 True"
  let ?am = "add_map_to_surface example_heap 1 [0, 1, 2, 3] [Num 2, Num 2, Num 2, Num 2]"
  let ?sm = "smooth_graph example_heap 1 PyNone 1 1"
  have l: "lists example_heap 0 = [0]" by code_simp
  have g: "graphs example_heap 1 = example_graph" by code_simp
  have f: "next_free example_heap = 2" by code_simp
  have n: "get_neighbours_and_vals (graphs example_heap 1) (SeedNodes (lists example_heap 0)) =
      Inr [(1, Num 5), (2, Num 3)]"
    by code_simp
  have am: "fst ?am = Inr 1" by code_simp
  note t = mutation_frame [of example_heap 1 0 2 True "fst ?e2" "snd ?e2"
      "[(1, Num 5), (2, Num 3)]" "[0, 1, 2, 3]" "[Num 2, Num 2, Num 2, Num 2]"
      "fst ?am" "snd ?am" PyNone 1 1 "fst ?sm" "snd ?sm"]
  from t have a: "graphs (snd ?e2) = graphs example_heap" by simp
  from t n have "expand_nodes example_heap 1 0 1 False =
    (Inr (0, set (map fst [(1, Num 5), (2, Num 3)]) - set (lists example_heap 0)),
     example_heap\<lparr>lists := (lists example_heap)
        (0 := lists example_heap 0 @ map fst [(1, Num 5), (2, Num 3)])\<rparr>)"
    by blast
  with l have b: "fst (expand_nodes example_heap 1 0 1 False) = Inr (0, {1, 2})"
    and c: "lists (snd (expand_nodes example_heap 1 0 1 False)) 0 = [0, 1, 2]"
    by auto
  from t have d: "lists (snd ?am) = lists example_heap" by simp
  from t have e: "lists (snd ?sm) = lists example_heap" by simp
  from t f have "graphs (snd ?sm) 1 = graphs example_heap 1" by simp
  with g have k: "graphs (snd ?sm) 1 = example_graph" by simp
  from a b c d am e k show ?thesis by (intro conjI)
qed

end
